theory Spec2Isabelle
  imports Main "HOL-Library.Sublist" "HOL-Library.Multiset" "HOL-Library.Word"
begin

section \<open>FileFlow: the scan, organize, duplicate and temp-sweep engine\<close>

text \<open>
  The development embeds the operations of \<^verbatim>\<open>Logic_FileFlow.py\<close> (class
  \<^verbatim>\<open>FileFlowMobileEnhanced\<close>), with the behaviour of \<^verbatim>\<open>pathlib\<close> and \<^verbatim>\<open>shutil\<close> as
  CPython 3.11 has it on a POSIX system. A path is the list of its components. A name is
  the string of the bytes of its UTF-8 encoding; every pattern the program compares a
  name with is ASCII, and an ASCII pattern ends or occurs in a name exactly when its
  bytes end or occur in the bytes of the name. Where the order in which the tasks of a
  worker pool complete could matter, the completion order is a parameter of the model;
  where tasks of a pool act on the same files, the model has the steps of the tasks and
  a schedule that interleaves them. Where the rich-console branch and the plain branch
  of an operation differ only in what they draw, the model is their common computation.
\<close>

subsection \<open>Paths and names (pathlib)\<close>

type_synonym path = "string list"

text \<open>\<^verbatim>\<open>Path.name\<close>: the last component (empty for the empty path).\<close>

definition name :: "path \<Rightarrow> string" where
  "name p = (if p = [] then [] else last p)"

text \<open>\<^verbatim>\<open>directory / n\<close>.\<close>

definition joinpath :: "path \<Rightarrow> string \<Rightarrow> path" where
  "joinpath d n = d @ [n]"

text \<open>
  \<^verbatim>\<open>str.rfind('.')\<close> as pathlib uses it: the index of the last dot, if any.
\<close>

fun rfind_dot :: "string \<Rightarrow> nat option" where
  "rfind_dot [] = None"
| "rfind_dot (c # cs) =
     (case rfind_dot cs of
        Some i \<Rightarrow> Some (Suc i)
      | None \<Rightarrow> if c = CHR ''.'' then Some 0 else None)"

text \<open>
  \<^verbatim>\<open>PurePath.suffix\<close> and \<^verbatim>\<open>PurePath.stem\<close>: with \<^verbatim>\<open>i = name.rfind('.')\<close>,
  the suffix is \<^verbatim>\<open>name[i:]\<close> when \<^verbatim>\<open>0 < i < len(name) - 1\<close> and empty otherwise;
  the stem is the rest of the name.
\<close>

definition suffix_of :: "string \<Rightarrow> string" where
  "suffix_of n =
     (case rfind_dot n of
        Some i \<Rightarrow> if 0 < i \<and> i + 1 < length n then drop i n else []
      | None \<Rightarrow> [])"

definition stem_of :: "string \<Rightarrow> string" where
  "stem_of n =
     (case rfind_dot n of
        Some i \<Rightarrow> if 0 < i \<and> i + 1 < length n then take i n else n
      | None \<Rightarrow> n)"

text \<open>
  \<^verbatim>\<open>str.lower\<close>. On a string of ASCII characters it turns each of the letters A to Z
  into its small letter and leaves the rest (\<open>ascii_lower\<close>). What it does to a string
  with other characters depends on the Unicode tables of the interpreter (U+212A
  KELVIN SIGN, for one, becomes \<^verbatim>\<open>k\<close>), so \<^verbatim>\<open>str.lower\<close> is a parameter of the model: a
  \<open>lowering\<close> is any function on strings that agrees with \<open>ascii_lower\<close> on the strings
  of ASCII characters, and \<open>lower L s\<close> is \<^verbatim>\<open>s.lower()\<close> under the lowering \<open>L\<close>. Every
  result below holds for every lowering.
\<close>

definition ascii_lower_char :: "char \<Rightarrow> char" where
  "ascii_lower_char c =
     (case map_of (zip ''ABCDEFGHIJKLMNOPQRSTUVWXYZ'' ''abcdefghijklmnopqrstuvwxyz'') c of
        Some l \<Rightarrow> l
      | None \<Rightarrow> c)"

definition ascii_lower :: "string \<Rightarrow> string" where
  "ascii_lower s = map ascii_lower_char s"

definition is_ascii :: "char \<Rightarrow> bool" where
  "is_ascii c = (\<not> digit7 c)"

typedef lowering = "{f :: string \<Rightarrow> string. \<forall>s. list_all is_ascii s \<longrightarrow> f s = ascii_lower s}"
  morphisms lower Abs_lowering
  by (rule exI[of _ ascii_lower]) simp

text \<open>One lowering, by which the definitions can be run: it changes the ASCII letters only.\<close>

setup_lifting type_definition_lowering

lift_definition ascii_lowering :: lowering is ascii_lower
  by simp

text \<open>\<^verbatim>\<open>s.endswith(ext)\<close> and \<^verbatim>\<open>pattern in s\<close>.\<close>

definition endswith :: "string \<Rightarrow> string \<Rightarrow> bool" where
  "endswith s ext = suffix ext s"

definition contains :: "string \<Rightarrow> string \<Rightarrow> bool" where
  "contains s pattern = sublist pattern s"

subsection \<open>The directory tree seen by a scan\<close>

text \<open>
  What \<^verbatim>\<open>iterdir\<close>, \<^verbatim>\<open>rglob\<close>, \<^verbatim>\<open>is_file\<close>, \<^verbatim>\<open>is_dir\<close> and \<^verbatim>\<open>stat\<close> observe:
  \<^item> a regular file with its size;
  \<^item> an entry that is neither a file nor a directory (socket, device);
  \<^item> a directory with two permissions and its entries in listing order: the first flag
    says whether the directory may be read (its names listed), the second whether it
    may be searched (what is behind one of its names examined);
  \<^item> a symbolic link with what it resolves to (for a link into the tree itself, a copy
    of what it points to, as deep as the scan looks);
  \<^item> a symbolic link that resolves to nothing (its target is missing, or the links form
    a cycle).

  What a link resolves to can be examined whenever the link can; the tree does not
  change during a scan.
\<close>

datatype tree =
    RegFile nat
  | Special
  | Directory bool bool "(string \<times> tree) list"
  | Link tree
  | Dangling

text \<open>What \<^verbatim>\<open>stat\<close> follows a path to.\<close>

fun target :: "tree \<Rightarrow> tree" where
  "target (Link t) = target t"
| "target t = t"

text \<open>
  \<^verbatim>\<open>Path.is_file\<close>, \<^verbatim>\<open>Path.is_dir\<close> and \<^verbatim>\<open>Path.stat().st_size\<close> once \<^verbatim>\<open>stat\<close> has
  succeeded; all three follow links.
\<close>

fun is_file :: "tree \<Rightarrow> bool" where
  "is_file (RegFile _) = True"
| "is_file (Link t) = is_file t"
| "is_file _ = False"

fun is_dir :: "tree \<Rightarrow> bool" where
  "is_dir (Directory _ _ _) = True"
| "is_dir (Link t) = is_dir t"
| "is_dir _ = False"

fun st_size :: "tree \<Rightarrow> nat" where
  "st_size (RegFile n) = n"
| "st_size (Link t) = st_size t"
| "st_size _ = 0"

datatype exn =
    PermissionError
  | NotADirectoryError
  | FileNotFoundError
  | FileExistsError
  | IsADirectoryError
  | IndexError
  | ShutilError

text \<open>
  Examining an entry of a directory (\<^verbatim>\<open>stat\<close> behind \<^verbatim>\<open>is_file\<close> and \<^verbatim>\<open>is_dir\<close>): in a
  directory that may not be searched \<^verbatim>\<open>stat\<close> fails with \<^verbatim>\<open>EACCES\<close>, which
  \<^verbatim>\<open>is_file\<close> and \<^verbatim>\<open>is_dir\<close> raise again as \<^verbatim>\<open>PermissionError\<close> (they swallow only
  \<^verbatim>\<open>ENOENT\<close>, \<^verbatim>\<open>ENOTDIR\<close>, \<^verbatim>\<open>EBADF\<close> and \<^verbatim>\<open>ELOOP\<close>).
\<close>

definition examine :: "bool \<Rightarrow> tree \<Rightarrow> exn + tree" where
  "examine searchable t = (if searchable then Inr t else Inl PermissionError)"

text \<open>
  \<^verbatim>\<open>path.rglob("*")\<close>: the paths it yields, each with what examining it gives. For a
  directory it yields every entry of the directory and then, entry by entry, what lies
  below each entry that is a directory and not a link; it yields the entries of a
  directory that may be read, also when the directory may not be searched, leaves out
  the entries of a directory it cannot open (it catches the \<^verbatim>\<open>PermissionError\<close>), and
  yields nothing for a path that is not a directory. No directory holds two entries of
  one name (\<open>wf_tree\<close> below), so that no path comes twice and the set of yielded paths
  that \<^verbatim>\<open>rglob\<close> keeps has no effect.
\<close>

fun rglob :: "path \<Rightarrow> tree \<Rightarrow> (path \<times> (exn + tree)) list"
  and descend :: "path \<Rightarrow> (string \<times> tree) list \<Rightarrow> (path \<times> (exn + tree)) list" where
  "rglob p (Directory readable searchable es) =
     (if readable
      then map (\<lambda>e. (joinpath p (fst e), examine searchable (snd e))) es
           @ (if searchable then descend p es else [])
      else [])"
| "rglob p (RegFile _) = []"
| "rglob p Special = []"
| "rglob p (Link _) = []"
| "rglob p Dangling = []"
| "descend p [] = []"
| "descend p (e # es) = rglob (joinpath p (fst e)) (snd e) @ descend p es"


subsection \<open>Scanning (\<^verbatim>\<open>scan_files_threaded\<close>)\<close>

text \<open>
  What \<^verbatim>\<open>scan_directory\<close> puts on \<^verbatim>\<open>scan_results_queue\<close>: \<^verbatim>\<open>('file', item)\<close>,
  \<^verbatim>\<open>('dir', item)\<close> or \<^verbatim>\<open>('error', "Permission denied: <directory>")\<close>.
\<close>

datatype queue_item = QFile path | QDir path | QError path

datatype message = Path_does_not_exist path

text \<open>
  The body of the loop over \<^verbatim>\<open>directory.iterdir()\<close>, with the handler around it: when
  examining an item raises \<^verbatim>\<open>PermissionError\<close> the loop ends, the error is put on the
  queue and the files found so far are returned.
\<close>

fun scan_entries ::
  "path \<Rightarrow> bool \<Rightarrow> (string \<times> tree) list \<Rightarrow> path list \<times> queue_item list
     \<Rightarrow> path list \<times> queue_item list"
where
  "scan_entries directory searchable [] (local_files, q) = (local_files, q)"
| "scan_entries directory searchable (e # es) (local_files, q) =
     (let item = joinpath directory (fst e) in
      case examine searchable (snd e) of
        Inl exc \<Rightarrow> (local_files, q @ [QError directory])
      | Inr t \<Rightarrow>
          if is_file t
          then scan_entries directory searchable es (local_files @ [item], q @ [QFile item])
          else if is_dir t
          then scan_entries directory searchable es (local_files, q @ [QDir item])
          else scan_entries directory searchable es (local_files, q))"

text \<open>
  \<^verbatim>\<open>scan_directory\<close>: \<^verbatim>\<open>iterdir\<close> follows a link; listing a directory that may not be
  read raises \<^verbatim>\<open>PermissionError\<close> before the first entry, which the function catches
  and records; listing something that is not a directory raises \<^verbatim>\<open>NotADirectoryError\<close>
  (or \<^verbatim>\<open>FileNotFoundError\<close>), which it does not catch. The result is the task's file
  list and what it put on the queue.
\<close>

fun scan_target :: "path \<Rightarrow> tree \<Rightarrow> exn + (path list \<times> queue_item list)" where
  "scan_target directory (Directory readable searchable es) =
     (if readable then Inr (scan_entries directory searchable es ([], []))
      else Inr ([], [QError directory]))"
| "scan_target directory (RegFile _) = Inl NotADirectoryError"
| "scan_target directory Special = Inl NotADirectoryError"
| "scan_target directory (Link _) = Inl NotADirectoryError"
| "scan_target directory Dangling = Inl FileNotFoundError"

definition scan_directory :: "path \<times> tree \<Rightarrow> exn + (path list \<times> queue_item list)" where
  "scan_directory item = scan_target (fst item) (target (snd item))"

text \<open>
  The first pass: \<^verbatim>\<open>directories = [path]\<close>, then every item of \<^verbatim>\<open>path.rglob("*")\<close>
  for which \<^verbatim>\<open>item.is_dir()\<close> holds. The loop stands outside any \<^verbatim>\<open>try\<close>: when
  examining an item raises, the exception leaves \<open>scan_files_threaded\<close>.
\<close>

fun first_pass ::
  "(path \<times> (exn + tree)) list \<Rightarrow> (path \<times> tree) list \<Rightarrow> exn + (path \<times> tree) list"
where
  "first_pass [] directories = Inr directories"
| "first_pass ((item, Inl exc) # rest) directories = Inl exc"
| "first_pass ((item, Inr t) # rest) directories =
     (if is_dir t then first_pass rest (directories @ [(item, t)])
      else first_pass rest directories)"

text \<open>
  The loop over \<^verbatim>\<open>as_completed\<close>: a task's files extend \<^verbatim>\<open>all_files\<close>; a task that
  raised is passed over.
\<close>

type_synonym scan_future = "exn + (path list \<times> queue_item list)"

fun collect_files :: "scan_future list \<Rightarrow> path list \<Rightarrow> path list" where
  "collect_files [] all_files = all_files"
| "collect_files (Inr (directory_files, q) # rest) all_files =
     collect_files rest (all_files @ directory_files)"
| "collect_files (Inl exc # rest) all_files = collect_files rest all_files"

fun queue_puts :: "scan_future \<Rightarrow> queue_item list" where
  "queue_puts (Inr (directory_files, q)) = q"
| "queue_puts (Inl exc) = []"

record scan_result =
  scanned_files :: "path list"
  queued :: "queue_item list"
  printed :: "message list"

text \<open>
  \<^verbatim>\<open>Path.exists\<close> of the root: \<open>root\<close> is what is at \<open>path\<close>, or \<open>None\<close> when nothing
  is; a link that resolves to nothing does not exist either.
\<close>

definition path_exists :: "tree option \<Rightarrow> bool" where
  "path_exists root = (case root of None \<Rightarrow> False | Some t \<Rightarrow> target t \<noteq> Dangling)"

text \<open>
  \<^verbatim>\<open>scan_files_threaded\<close>. \<open>completion\<close> is the order in which \<^verbatim>\<open>as_completed\<close> hands
  the finished tasks back. The function returns \<open>scanned_files\<close> (its \<^verbatim>\<open>all_files\<close>), or
  an exception leaves it; the record also keeps what was printed and what the tasks put
  on the queue (a local of the call, which the rich branch reads only to count files
  for its display).
\<close>

definition scan_files_threaded ::
  "(scan_future list \<Rightarrow> scan_future list) \<Rightarrow> path \<Rightarrow> tree option \<Rightarrow> exn + scan_result"
where
  "scan_files_threaded completion p root =
     (case (if path_exists root then root else None) of
        None \<Rightarrow> Inr \<lparr>scanned_files = [], queued = [], printed = [Path_does_not_exist p]\<rparr>
      | Some t \<Rightarrow>
          (case first_pass (rglob p (target t)) [(p, t)] of
             Inl exc \<Rightarrow> Inl exc
           | Inr directories \<Rightarrow>
               (let futures = map scan_directory directories;
                    finished = completion futures
                in Inr \<lparr>scanned_files = collect_files finished [],
                        queued = concat (map queue_puts finished),
                        printed = []\<rparr>)))"

subsection \<open>Temp-file sweep (\<^verbatim>\<open>clean_temp_files\<close>)\<close>

definition temp_extensions :: "string list" where
  "temp_extensions =
     [''.tmp'', ''.temp'', ''.bak'', ''.log'', ''~'', ''.swp'', ''.cache'', ''.crdownload'',
      ''.part'']"

definition temp_patterns :: "string list" where
  "temp_patterns = [''cache'', ''temp'', ''tmp'', ''backup'']"

text \<open>The two tests of the sweep's \<^verbatim>\<open>if\<close>/\<^verbatim>\<open>elif\<close>.\<close>

definition by_extension :: "path \<Rightarrow> bool" where
  "by_extension file_path = list_ex (\<lambda>ext. endswith (name file_path) ext) temp_extensions"

definition by_pattern :: "lowering \<Rightarrow> path \<Rightarrow> bool" where
  "by_pattern L file_path =
     list_ex (\<lambda>pattern. contains (lower L (name file_path)) pattern) temp_patterns"

text \<open>
  The loop over \<^verbatim>\<open>path.rglob("*")\<close> that builds \<^verbatim>\<open>temp_files\<close> and \<^verbatim>\<open>total_size\<close>. It
  stands outside any \<^verbatim>\<open>try\<close>: when \<^verbatim>\<open>file_path.is_file()\<close> raises, the exception leaves
  \<open>clean_temp_files\<close>.
\<close>

fun sweep_loop ::
  "lowering \<Rightarrow> (path \<times> (exn + tree)) list \<Rightarrow> path list \<times> nat \<Rightarrow> exn + (path list \<times> nat)"
where
  "sweep_loop L [] (temp_files, total_size) = Inr (temp_files, total_size)"
| "sweep_loop L ((file_path, Inl exc) # rest) (temp_files, total_size) = Inl exc"
| "sweep_loop L ((file_path, Inr t) # rest) (temp_files, total_size) =
     (if is_file t then
        if by_extension file_path
        then sweep_loop L rest (temp_files @ [file_path], total_size + st_size t)
        else if by_pattern L file_path
        then sweep_loop L rest (temp_files @ [file_path], total_size + st_size t)
        else sweep_loop L rest (temp_files, total_size)
      else sweep_loop L rest (temp_files, total_size))"

text \<open>The candidates of a sweep over an existing root \<open>t\<close> at \<open>p\<close>.\<close>

definition temp_candidates :: "lowering \<Rightarrow> path \<Rightarrow> tree \<Rightarrow> exn + (path list \<times> nat)" where
  "temp_candidates L p t = sweep_loop L (rglob p (target t)) ([], 0)"

subsection \<open>An independent recursive walk, and conditions on trees\<close>

text \<open>
  The reference the scan is compared with: a depth-first walk that lists what
  \<^verbatim>\<open>is_file\<close> holds of (a regular file, or a link to one) below a directory, descending
  into the directories that may be read and searched and never into a link. It is
  written without \<open>rglob\<close> and without the per-directory tasks. \<open>independent_dirs\<close> is
  the same walk for the directories below a directory.
\<close>

fun independent_walk :: "path \<Rightarrow> tree \<Rightarrow> path list"
  and independent_walk_entries :: "path \<Rightarrow> (string \<times> tree) list \<Rightarrow> path list" where
  "independent_walk p (Directory readable searchable es) =
     (if readable \<and> searchable then independent_walk_entries p es else [])"
| "independent_walk p (RegFile _) = []"
| "independent_walk p Special = []"
| "independent_walk p (Link _) = []"
| "independent_walk p Dangling = []"
| "independent_walk_entries p [] = []"
| "independent_walk_entries p (e # es) =
     (if is_file (snd e) then [joinpath p (fst e)]
      else independent_walk (joinpath p (fst e)) (snd e))
     @ independent_walk_entries p es"

fun independent_dirs :: "path \<Rightarrow> tree \<Rightarrow> path list"
  and independent_dirs_entries :: "path \<Rightarrow> (string \<times> tree) list \<Rightarrow> path list" where
  "independent_dirs p (Directory readable searchable es) =
     (if readable \<and> searchable then independent_dirs_entries p es else [])"
| "independent_dirs p (RegFile _) = []"
| "independent_dirs p Special = []"
| "independent_dirs p (Link _) = []"
| "independent_dirs p Dangling = []"
| "independent_dirs_entries p [] = []"
| "independent_dirs_entries p (e # es) =
     (if is_dir (snd e)
      then joinpath p (fst e) # independent_dirs (joinpath p (fst e)) (snd e)
      else [])
     @ independent_dirs_entries p es"

text \<open>The walk that also descends into the links that lead to directories.\<close>

fun following_walk :: "path \<Rightarrow> tree \<Rightarrow> path list"
  and following_walk_entries :: "path \<Rightarrow> (string \<times> tree) list \<Rightarrow> path list" where
  "following_walk p (Directory readable searchable es) =
     (if readable \<and> searchable then following_walk_entries p es else [])"
| "following_walk p (RegFile _) = []"
| "following_walk p Special = []"
| "following_walk p (Link t) = following_walk p t"
| "following_walk p Dangling = []"
| "following_walk_entries p [] = []"
| "following_walk_entries p (e # es) =
     (if is_file (snd e) then [joinpath p (fst e)]
      else following_walk (joinpath p (fst e)) (snd e))
     @ following_walk_entries p es"

text \<open>A tree is well formed when no directory holds two entries of the same name.\<close>

fun wf_tree :: "tree \<Rightarrow> bool" and wf_entries :: "(string \<times> tree) list \<Rightarrow> bool" where
  "wf_tree (Directory readable searchable es) = (distinct (map fst es) \<and> wf_entries es)"
| "wf_tree (RegFile _) = True"
| "wf_tree Special = True"
| "wf_tree (Link t) = wf_tree t"
| "wf_tree Dangling = True"
| "wf_entries [] = True"
| "wf_entries (e # es) = (wf_tree (snd e) \<and> wf_entries es)"

text \<open>
  Every entry that \<^verbatim>\<open>rglob\<close> yields below a directory can be examined: each directory
  that is reached without passing a link, that may be read and that holds an entry may
  also be searched.
\<close>

fun passable :: "tree \<Rightarrow> bool" and passable_entries :: "(string \<times> tree) list \<Rightarrow> bool" where
  "passable (Directory readable searchable es) =
     (if readable then es = [] \<or> (searchable \<and> passable_entries es) else True)"
| "passable (RegFile _) = True"
| "passable Special = True"
| "passable (Link _) = True"
| "passable Dangling = True"
| "passable_entries [] = True"
| "passable_entries (e # es) = (passable (snd e) \<and> passable_entries es)"

text \<open>No entry below a directory is a link to a directory.\<close>

fun no_dir_links :: "tree \<Rightarrow> bool" and no_dir_links_entries :: "(string \<times> tree) list \<Rightarrow> bool" where
  "no_dir_links (Directory readable searchable es) = no_dir_links_entries es"
| "no_dir_links (RegFile _) = True"
| "no_dir_links Special = True"
| "no_dir_links (Link t) = (\<not> is_dir t)"
| "no_dir_links Dangling = True"
| "no_dir_links_entries [] = True"
| "no_dir_links_entries (e # es) = (no_dir_links (snd e) \<and> no_dir_links_entries es)"

text \<open>The file list a finished task hands back (nothing when it raised).\<close>

fun task_files :: "scan_future \<Rightarrow> path list" where
  "task_files (Inr (directory_files, q)) = directory_files"
| "task_files (Inl exc) = []"

text \<open>The items of an enumeration that were examined and are directories.\<close>

fun directories_in :: "(path \<times> (exn + tree)) list \<Rightarrow> (path \<times> tree) list" where
  "directories_in [] = []"
| "directories_in ((item, Inl exc) # rest) = directories_in rest"
| "directories_in ((item, Inr t) # rest) =
     (if is_dir t then (item, t) # directories_in rest else directories_in rest)"

text \<open>The items of an enumeration that were examined and for which \<^verbatim>\<open>is_file\<close> holds.\<close>

fun files_in :: "(path \<times> (exn + tree)) list \<Rightarrow> path list" where
  "files_in [] = []"
| "files_in ((item, Inl exc) # rest) = files_in rest"
| "files_in ((item, Inr t) # rest) =
     (if is_file t then item # files_in rest else files_in rest)"

text \<open>Every item of an enumeration could be examined.\<close>

definition examined :: "(path \<times> (exn + tree)) list \<Rightarrow> bool" where
  "examined items = list_all (\<lambda>item. \<not> isl (snd item)) items"

text \<open>
  What is at a path relative to a tree, going only through directories that may be
  read and searched and through no link; and the relative paths at which \<^verbatim>\<open>is_file\<close>
  holds (a regular file, or a link to one) that can be reached in this way.
\<close>

fun lookup :: "tree \<Rightarrow> path \<Rightarrow> tree option" where
  "lookup t [] = Some t"
| "lookup (Directory readable searchable es) (n # rest) =
     (if readable \<and> searchable
      then (case map_of es n of Some t' \<Rightarrow> lookup t' rest | None \<Rightarrow> None)
      else None)"
| "lookup (RegFile s) (n # rest) = None"
| "lookup Special (n # rest) = None"
| "lookup (Link t) (n # rest) = None"
| "lookup Dangling (n # rest) = None"

definition reachable_files :: "tree \<Rightarrow> path set" where
  "reachable_files t = {rel. rel \<noteq> [] \<and> (\<exists>t'. lookup t rel = Some t' \<and> is_file t')}"

subsection \<open>The file store seen by organize and by duplicate removal\<close>

text \<open>
  The operations that move, read and delete files see the file system as a finite map
  from paths to entries. A regular file has its bytes, a flag saying whether it may be
  read, and a flag saying whether it may be taken out of its directory (renamed away or
  unlinked: the permission to write the directory that holds it); a directory has no
  further data here. Creating an entry, or putting one in the place of another, is never
  refused for lack of permission in this model. Each path names an entry of its own: the store holds no links, so that what is
  done to one path leaves every other path as it was. (Under a link to a directory two
  scanned paths name one file, and unlinking or moving one takes the other away; this
  store does not show that, and nothing below is claimed for such paths.)
\<close>

type_synonym byte = "8 word"

datatype node = File "byte list" bool bool | Dir

type_synonym fs = "path \<rightharpoonup> node"

text \<open>\<^verbatim>\<open>Path.exists\<close>.\<close>

definition exists :: "fs \<Rightarrow> path \<Rightarrow> bool" where
  "exists fs p = (fs p \<noteq> None)"

text \<open>\<^verbatim>\<open>Path.parent\<close>.\<close>

definition parent :: "path \<Rightarrow> path" where
  "parent p = butlast p"

text \<open>
  \<^verbatim>\<open>Path.mkdir(exist_ok=True)\<close>: nothing happens when the directory is there; a file
  of that name raises \<^verbatim>\<open>FileExistsError\<close>; a missing parent raises
  \<^verbatim>\<open>FileNotFoundError\<close> and a parent that is a file \<^verbatim>\<open>NotADirectoryError\<close>.
\<close>

definition mkdir_exist_ok :: "fs \<Rightarrow> path \<Rightarrow> exn + fs" where
  "mkdir_exist_ok fs d =
     (case fs d of
        Some Dir \<Rightarrow> Inr fs
      | Some (File c r m) \<Rightarrow> Inl FileExistsError
      | None \<Rightarrow>
          (case fs (parent d) of
             Some Dir \<Rightarrow> Inr (fs(d \<mapsto> Dir))
           | Some (File c r m) \<Rightarrow> Inl NotADirectoryError
           | None \<Rightarrow> Inl FileNotFoundError))"

text \<open>How a library call ends: it returns, or an exception leaves it.\<close>

datatype outcome = Returned | Raised exn

text \<open>
  \<^verbatim>\<open>shutil.move(src, dst)\<close> for a source that is a regular file, from
  \<^verbatim>\<open>os.rename(src, real_dst)\<close> on. The rename puts the entry at \<^verbatim>\<open>real_dst\<close>, in the
  place of a file that is there, and takes it from \<^verbatim>\<open>src\<close>. When the rename is refused
  (the file may not be taken out of its directory) \<^verbatim>\<open>shutil.move\<close> catches the
  \<^verbatim>\<open>OSError\<close> and falls back to \<^verbatim>\<open>copy2(src, real_dst)\<close> and \<^verbatim>\<open>os.unlink(src)\<close>:
  a file that may be read is copied to \<^verbatim>\<open>real_dst\<close>, then the unlink raises
  \<^verbatim>\<open>PermissionError\<close> and the copy stays; for a file that may not be read the copy
  raises at once. A missing source raises \<^verbatim>\<open>FileNotFoundError\<close>. The store is one
  file system (no rename fails for crossing devices). The scan hands only regular files
  to the organizer; moving a directory with everything below it is not modelled, and
  the model raises there.
\<close>

definition rename_or_copy :: "fs \<Rightarrow> path \<Rightarrow> path \<Rightarrow> outcome \<times> fs" where
  "rename_or_copy fs src real_dst =
     (case fs src of
        None \<Rightarrow> (Raised FileNotFoundError, fs)
      | Some Dir \<Rightarrow> (Raised IsADirectoryError, fs)
      | Some (File c r m) \<Rightarrow>
          if m then (Returned, (fs(src := None))(real_dst \<mapsto> File c r m))
          else if r then (Raised PermissionError, fs(real_dst \<mapsto> File c r True))
          else (Raised PermissionError, fs))"

text \<open>
  \<^verbatim>\<open>shutil.move(src, dst)\<close>: when \<^verbatim>\<open>dst\<close> is a directory the file goes into it under
  its own name, and \<^verbatim>\<open>shutil.Error\<close> is raised when that name is taken there; otherwise
  \<^verbatim>\<open>real_dst\<close> is \<^verbatim>\<open>dst\<close>, whether or not a file is there.
\<close>

definition move :: "fs \<Rightarrow> path \<Rightarrow> path \<Rightarrow> outcome \<times> fs" where
  "move fs src dst =
     (case fs dst of
        Some Dir \<Rightarrow>
          (let real_dst = joinpath dst (name src) in
           if exists fs real_dst then (Raised ShutilError, fs)
           else rename_or_copy fs src real_dst)
      | Some (File c r m) \<Rightarrow> rename_or_copy fs src dst
      | None \<Rightarrow> rename_or_copy fs src dst)"

text \<open>\<^verbatim>\<open>Path.unlink\<close>.\<close>

definition unlink :: "fs \<Rightarrow> path \<Rightarrow> exn + fs" where
  "unlink fs p =
     (case fs p of
        None \<Rightarrow> Inl FileNotFoundError
      | Some Dir \<Rightarrow> Inl IsADirectoryError
      | Some (File c r m) \<Rightarrow> if m then Inr (fs(p := None)) else Inl PermissionError)"

text \<open>\<^verbatim>\<open>Path.stat().st_size\<close> of a regular file.\<close>

definition stat_size :: "fs \<Rightarrow> path \<Rightarrow> exn + nat" where
  "stat_size fs p =
     (case fs p of
        None \<Rightarrow> Inl FileNotFoundError
      | Some Dir \<Rightarrow> Inr 0
      | Some (File c r m) \<Rightarrow> Inr (length c))"

text \<open>\<^verbatim>\<open>str(e)\<close> of a caught exception; the model keeps the name of its class.\<close>

fun str_exn :: "exn \<Rightarrow> string" where
  "str_exn PermissionError = ''PermissionError''"
| "str_exn NotADirectoryError = ''NotADirectoryError''"
| "str_exn FileNotFoundError = ''FileNotFoundError''"
| "str_exn FileExistsError = ''FileExistsError''"
| "str_exn IsADirectoryError = ''IsADirectoryError''"
| "str_exn IndexError = ''IndexError''"
| "str_exn ShutilError = ''Error''"

text \<open>\<^verbatim>\<open>str(counter)\<close>: the decimal digits of a natural number.\<close>

definition digit_char :: "nat \<Rightarrow> char" where
  "digit_char d = ''0123456789'' ! d"

fun str_nat :: "nat \<Rightarrow> string" where
  "str_nat n = (if n < 10 then [digit_char n] else str_nat (n div 10) @ [digit_char (n mod 10)])"

declare str_nat.simps [simp del]

subsection \<open>Organizing (\<^verbatim>\<open>smart_organize_threaded\<close> and its \<^verbatim>\<open>organize_file\<close>)\<close>

text \<open>\<^verbatim>\<open>self.file_categories\<close> as \<^verbatim>\<open>__init__\<close> sets it, in the dictionary's order.\<close>

definition file_categories :: "(string \<times> string list) list" where
  "file_categories =
     [(''Images'', [''.jpg'', ''.jpeg'', ''.png'', ''.gif'', ''.bmp'', ''.webp'', ''.heic'', ''.svg'',
                   ''.tiff'', ''.ico'']),
      (''Videos'', [''.mp4'', ''.avi'', ''.mkv'', ''.mov'', ''.wmv'', ''.flv'', ''.webm'', ''.m4v'',
                   ''.3gp'', ''.ogv'']),
      (''Audio'', [''.mp3'', ''.wav'', ''.flac'', ''.aac'', ''.ogg'', ''.m4a'', ''.wma'', ''.opus'']),
      (''Documents'', [''.pdf'', ''.doc'', ''.docx'', ''.txt'', ''.rtf'', ''.odt'', ''.xls'', ''.xlsx'',
                      ''.ppt'', ''.pptx'']),
      (''Archives'', [''.zip'', ''.rar'', ''.7z'', ''.tar'', ''.gz'', ''.bz2'', ''.xz'', ''.lzma'']),
      (''Code'', [''.py'', ''.js'', ''.html'', ''.css'', ''.java'', ''.cpp'', ''.c'', ''.php'', ''.rb'',
                 ''.go'', ''.rs'']),
      (''APK'', [''.apk'', ''.xapk'', ''.aab'']),
      (''Fonts'', [''.ttf'', ''.otf'', ''.woff'', ''.woff2'']),
      (''Ebooks'', [''.epub'', ''.mobi'', ''.azw'', ''.azw3''])]"

text \<open>
  The name both conflict loops compute:
  \<^verbatim>\<open>f"{file_path.stem}_{counter}{file_path.suffix}"\<close>.
\<close>

definition numbered_name :: "path \<Rightarrow> nat \<Rightarrow> string" where
  "numbered_name file_path counter =
     stem_of (name file_path) @ ''_'' @ str_nat counter @ suffix_of (name file_path)"

text \<open>
  The conflict loop of a categorized file: while \<open>new_path\<close> exists, \<open>new_path\<close> becomes
  the next numbered name in the category directory. A loop that does not end has no
  value (\<open>None\<close>).
\<close>

partial_function (option) category_conflict_loop ::
  "fs \<Rightarrow> path \<Rightarrow> path \<Rightarrow> path \<Rightarrow> nat \<Rightarrow> path option"
where [code]:
  "category_conflict_loop fs category_dir file_path new_path counter =
     (if exists fs new_path
      then category_conflict_loop fs category_dir file_path
             (joinpath category_dir (numbered_name file_path counter)) (counter + 1)
      else Some new_path)"

text \<open>
  The conflict loop of the Others branch: the numbered name is computed and dropped
  (the statement is the bare f-string), so \<open>new_path\<close> stays what it was and only the
  counter moves.
\<close>

partial_function (option) others_conflict_loop ::
  "fs \<Rightarrow> path \<Rightarrow> path \<Rightarrow> path \<Rightarrow> nat \<Rightarrow> path option"
where [code]:
  "others_conflict_loop fs others_dir file_path new_path counter =
     (if exists fs new_path
      then others_conflict_loop fs others_dir file_path new_path (counter + 1)
      else Some new_path)"

text \<open>
  What a call of \<open>organize_file\<close> ends with: the pair it returns, or the exception that
  leaves it (\<open>mkdir\<close> stands outside the \<^verbatim>\<open>try\<close>).
\<close>

type_synonym organize_result = "exn + (string \<times> string)"

text \<open>
  A call of \<open>organize_file\<close> has two parts, and the other tasks of the pool can act
  between them: up to the end of the conflict loop the call chooses what to do, then
  it calls \<^verbatim>\<open>shutil.move\<close>. What it has chosen: to let an exception out, to return
  \<^verbatim>\<open>'skipped'\<close>, or to move the file to \<open>new_path\<close> and return \<^verbatim>\<open>'success'\<close> with the
  given second component.
\<close>

datatype decision = Raises exn | Skips | Moves path string

text \<open>
  The body of the category loop once \<^verbatim>\<open>file_ext in extensions\<close> holds, up to the
  end of the conflict loop.
\<close>

definition category_destination :: "fs \<Rightarrow> path \<Rightarrow> string \<Rightarrow> path \<Rightarrow> (decision \<times> fs) option" where
  "category_destination fs root category file_path =
     (let category_dir = joinpath root category in
      case mkdir_exist_ok fs category_dir of
        Inl e \<Rightarrow> Some (Raises e, fs)
      | Inr fs1 \<Rightarrow>
          (case category_conflict_loop fs1 category_dir file_path
                  (joinpath category_dir (name file_path)) 1 of
             None \<Rightarrow> None
           | Some new_path \<Rightarrow> Some (Moves new_path category, fs1)))"

text \<open>
  The part after the category loop, up to the end of its conflict loop.
  \<open>category_found\<close> is set to \<open>False\<close> at the top of \<open>organize_file\<close> and never
  assigned again.
\<close>

definition others_destination :: "lowering \<Rightarrow> fs \<Rightarrow> path \<Rightarrow> path \<Rightarrow> (decision \<times> fs) option" where
  "others_destination L fs root file_path =
     (let file_ext = lower L (suffix_of (name file_path));
          category_found = False
      in if \<not> category_found \<and> file_ext \<noteq> [] then
           (let others_dir = joinpath root ''Others'' in
            case mkdir_exist_ok fs others_dir of
              Inl e \<Rightarrow> Some (Raises e, fs)
            | Inr fs1 \<Rightarrow>
                (case others_conflict_loop fs1 others_dir file_path
                        (joinpath others_dir (name file_path)) 1 of
                   None \<Rightarrow> None
                 | Some new_path \<Rightarrow> Some (Moves new_path ''Others'', fs1)))
         else Some (Skips, fs))"

text \<open>
  The loop over \<^verbatim>\<open>self.file_categories.items()\<close>: the first category whose extensions
  hold \<open>file_ext\<close> decides; with none, control reaches the Others part.
\<close>

fun destination_in ::
  "lowering \<Rightarrow> (string \<times> string list) list \<Rightarrow> fs \<Rightarrow> path \<Rightarrow> path \<Rightarrow> (decision \<times> fs) option"
where
  "destination_in L [] fs root file_path = others_destination L fs root file_path"
| "destination_in L ((category, extensions) # rest) fs root file_path =
     (if lower L (suffix_of (name file_path)) \<in> set extensions
      then category_destination fs root category file_path
      else destination_in L rest fs root file_path)"

text \<open>
  The rest of the call: \<^verbatim>\<open>shutil.move(str(file_path), str(new_path))\<close> inside the
  \<^verbatim>\<open>try\<close>, whose handler returns \<^verbatim>\<open>'error'\<close> with the text of the exception.
\<close>

definition finish :: "fs \<Rightarrow> path \<Rightarrow> decision \<Rightarrow> organize_result \<times> fs" where
  "finish fs file_path decision =
     (case decision of
        Raises e \<Rightarrow> (Inl e, fs)
      | Skips \<Rightarrow> (Inr (''skipped'', ''No extension''), fs)
      | Moves new_path info \<Rightarrow>
          (case move fs file_path new_path of
             (Raised e, fs2) \<Rightarrow> (Inr (''error'', str_exn e), fs2)
           | (Returned, fs2) \<Rightarrow> (Inr (''success'', info), fs2)))"

text \<open>
  A call of \<open>organize_file\<close> that runs from its start to its end with no other task
  acting in between: its result and the file store afterwards, or \<open>None\<close> when it does
  not return.
\<close>

definition organize_file ::
  "lowering \<Rightarrow> (string \<times> string list) list \<Rightarrow> path \<Rightarrow> fs \<Rightarrow> path
     \<Rightarrow> (organize_result \<times> fs) option"
where
  "organize_file L categories root fs file_path =
     (case destination_in L categories fs root file_path of
        None \<Rightarrow> None
      | Some (decision, fs1) \<Rightarrow> Some (finish fs1 file_path decision))"

text \<open>
  The submitted tasks under the schedule in which each runs to its end before the next
  starts, in the order of \<open>all_files\<close> (what the pool does with one worker): the result
  of each future and the file store at the end. The run has no value when a task does
  not end.
\<close>

fun run_tasks ::
  "lowering \<Rightarrow> (string \<times> string list) list \<Rightarrow> path \<Rightarrow> fs \<Rightarrow> path list
     \<Rightarrow> (organize_result list \<times> fs) option"
where
  "run_tasks L categories root fs [] = Some ([], fs)"
| "run_tasks L categories root fs (file_path # rest) =
     (case organize_file L categories root fs file_path of
        None \<Rightarrow> None
      | Some (r, fs1) \<Rightarrow>
          (case run_tasks L categories root fs1 rest of
             None \<Rightarrow> None
           | Some (rs, fs2) \<Rightarrow> Some (r # rs, fs2)))"

text \<open>
  The tasks on the pool of \<^verbatim>\<open>ThreadPoolExecutor(max_workers=4)\<close>, which runs up to
  four of them at once with no lock around the files. A task is submitted, or has
  chosen what to do and not yet moved, or is done with its result. A step takes a task
  from one stage to the next; a schedule names, step by step, the task that acts. (The
  program can be interrupted also inside a conflict loop; every run of this model is a
  run of the program.)
\<close>

datatype task = Submitted path | Chosen path decision | Done organize_result

definition step ::
  "lowering \<Rightarrow> (string \<times> string list) list \<Rightarrow> path \<Rightarrow> fs \<Rightarrow> task \<Rightarrow> (task \<times> fs) option"
where
  "step L categories root fs t =
     (case t of
        Submitted file_path \<Rightarrow>
          (case destination_in L categories fs root file_path of
             None \<Rightarrow> None
           | Some (decision, fs1) \<Rightarrow> Some (Chosen file_path decision, fs1))
      | Chosen file_path decision \<Rightarrow>
          (case finish fs file_path decision of (r, fs2) \<Rightarrow> Some (Done r, fs2))
      | Done r \<Rightarrow> Some (Done r, fs))"

fun run_schedule ::
  "lowering \<Rightarrow> (string \<times> string list) list \<Rightarrow> path \<Rightarrow> nat list \<Rightarrow> task list \<times> fs
     \<Rightarrow> (task list \<times> fs) option"
where
  "run_schedule L categories root [] (tasks, fs) = Some (tasks, fs)"
| "run_schedule L categories root (i # schedule) (tasks, fs) =
     (if i < length tasks then
        (case step L categories root fs (tasks ! i) of
           None \<Rightarrow> None
         | Some (t, fs1) \<Rightarrow> run_schedule L categories root schedule (tasks[i := t], fs1))
      else run_schedule L categories root schedule (tasks, fs))"

text \<open>
  The loop over \<^verbatim>\<open>as_completed\<close>: \<open>organized_count\<close> and \<open>error_count\<close>. A future whose
  \<^verbatim>\<open>result()\<close> raises counts as an error; a \<^verbatim>\<open>'skipped'\<close> result changes neither
  counter.
\<close>

fun tally :: "organize_result list \<Rightarrow> nat \<times> nat \<Rightarrow> nat \<times> nat" where
  "tally [] (organized_count, error_count) = (organized_count, error_count)"
| "tally (Inr (result, info) # rest) (organized_count, error_count) =
     (if result = ''success'' then tally rest (organized_count + 1, error_count)
      else if result = ''error'' then tally rest (organized_count, error_count + 1)
      else tally rest (organized_count, error_count))"
| "tally (Inl exc # rest) (organized_count, error_count) =
     tally rest (organized_count, error_count + 1)"

text \<open>The figures of the results table: total files, successfully organized, errors.\<close>

record organize_report =
  report_total :: nat
  report_organized :: nat
  report_errors :: nat

text \<open>
  \<open>smart_organize_threaded\<close> from the scanned list on: \<open>all_files\<close> is what the scan
  returned, and \<open>proceed\<close> says that no confirmation was asked for or that it was
  given. With no files or without confirmation the function returns before organizing
  (no report); otherwise it runs the tasks and reports. \<open>None\<close> stands for a run that
  does not end. The tasks run under the schedule of \<open>run_tasks\<close>.
\<close>

definition smart_organize_threaded ::
  "lowering \<Rightarrow> (string \<times> string list) list \<Rightarrow> path \<Rightarrow> fs \<Rightarrow> path list \<Rightarrow> bool
     \<Rightarrow> (organize_report option \<times> fs) option"
where
  "smart_organize_threaded L categories root fs all_files proceed =
     (if all_files = [] then Some (None, fs)
      else if \<not> proceed then Some (None, fs)
      else
        (case run_tasks L categories root fs all_files of
           None \<Rightarrow> None
         | Some (rs, fs1) \<Rightarrow>
             (case tally rs (0, 0) of
                (organized_count, error_count) \<Rightarrow>
                  Some (Some \<lparr>report_total = length all_files,
                              report_organized = organized_count,
                              report_errors = error_count\<rparr>, fs1))))"

text \<open>
  Helpers for stating results: the first category of the table that lists an extension,
  whether a future's result is an exception or a pair tagged \<^verbatim>\<open>'success'\<close>,
  \<^verbatim>\<open>'error'\<close> or \<^verbatim>\<open>'skipped'\<close>, and whether it is the \<^verbatim>\<open>'skipped'\<close> pair.
\<close>

fun first_category :: "(string \<times> string list) list \<Rightarrow> string \<Rightarrow> string option" where
  "first_category [] ext = None"
| "first_category ((category, extensions) # rest) ext =
     (if ext \<in> set extensions then Some category else first_category rest ext)"

fun well_tagged :: "organize_result \<Rightarrow> bool" where
  "well_tagged (Inr (result, info)) =
     (result = ''success'' \<or> result = ''error'' \<or> result = ''skipped'')"
| "well_tagged (Inl exc) = True"

fun is_skipped :: "organize_result \<Rightarrow> bool" where
  "is_skipped (Inr (result, info)) = (result = ''skipped'')"
| "is_skipped (Inl exc) = False"

subsection \<open>Duplicates (\<^verbatim>\<open>find_duplicates_threaded\<close> and its \<^verbatim>\<open>get_file_hash\<close>)\<close>

text \<open>
  \<^verbatim>\<open>hashlib.md5\<close> is not part of the program: the development takes the digest
  function as a parameter \<open>md5\<close>, from the bytes of a file to a 128-bit digest. Feeding
  the digest the chunks of 8192 bytes one after the other gives the digest of the whole
  content, so the model applies \<open>md5\<close> to the content. The hexadecimal text of a digest
  is never empty, so \<^verbatim>\<open>if file_hash:\<close> tells exactly a digest from \<^verbatim>\<open>None\<close>.
\<close>

type_synonym digest = "128 word"

text \<open>
  \<open>get_file_hash\<close>: opening or reading fails for a missing path, a directory and a
  file that may not be read; every such exception is caught and the digest is
  \<^verbatim>\<open>None\<close>.
\<close>

definition get_file_hash :: "(byte list \<Rightarrow> digest) \<Rightarrow> fs \<Rightarrow> path \<Rightarrow> path \<times> digest option" where
  "get_file_hash md5 fs filepath =
     (case fs filepath of
        None \<Rightarrow> (filepath, None)
      | Some Dir \<Rightarrow> (filepath, None)
      | Some (File c r m) \<Rightarrow> if r then (filepath, Some (md5 c)) else (filepath, None))"

text \<open>
  \<open>hash_to_files\<close>, a \<^verbatim>\<open>defaultdict(list)\<close>, as the list of its items in insertion
  order; \<^verbatim>\<open>hash_to_files[file_hash].append(filepath)\<close>.
\<close>

type_synonym hash_groups = "(digest \<times> path list) list"

fun append_file :: "hash_groups \<Rightarrow> digest \<Rightarrow> path \<Rightarrow> hash_groups" where
  "append_file [] file_hash filepath = [(file_hash, [filepath])]"
| "append_file ((h, files) # rest) file_hash filepath =
     (if h = file_hash then (h, files @ [filepath]) # rest
      else (h, files) # append_file rest file_hash filepath)"

text \<open>The loop over \<^verbatim>\<open>as_completed\<close> that fills \<open>hash_to_files\<close>.\<close>

fun hash_loop :: "(path \<times> digest option) list \<Rightarrow> hash_groups \<Rightarrow> hash_groups" where
  "hash_loop [] hash_to_files = hash_to_files"
| "hash_loop ((filepath, file_hash) # rest) hash_to_files =
     (case file_hash of
        Some h \<Rightarrow> hash_loop rest (append_file hash_to_files h filepath)
      | None \<Rightarrow> hash_loop rest hash_to_files)"

text \<open>\<^verbatim>\<open>duplicates = {h: files for h, files in hash_to_files.items() if len(files) > 1}\<close>.\<close>

definition duplicates_of :: "hash_groups \<Rightarrow> hash_groups" where
  "duplicates_of hash_to_files = filter (\<lambda>item. length (snd item) > 1) hash_to_files"

text \<open>
  Hashing and grouping together. \<open>completion\<close> is the order in which \<^verbatim>\<open>as_completed\<close>
  hands the finished hash tasks back.
\<close>

definition find_duplicates ::
  "(byte list \<Rightarrow> digest) \<Rightarrow> ((path \<times> digest option) list \<Rightarrow> (path \<times> digest option) list)
     \<Rightarrow> fs \<Rightarrow> path list \<Rightarrow> hash_groups"
where
  "find_duplicates md5 completion fs all_files =
     duplicates_of (hash_loop (completion (map (get_file_hash md5 fs) all_files)) [])"

text \<open>\<^verbatim>\<open>total_duplicates = sum(len(files) - 1 for files in duplicates.values())\<close>.\<close>

definition count_duplicates :: "hash_groups \<Rightarrow> nat" where
  "count_duplicates duplicates = sum_list (map (\<lambda>item. length (snd item) - 1) duplicates)"

text \<open>
  The report loop: \<^verbatim>\<open>file_size = files[0].stat().st_size\<close> and
  \<^verbatim>\<open>duplicate_size += file_size * (len(files) - 1)\<close>. The \<^verbatim>\<open>stat\<close> is not inside a
  \<^verbatim>\<open>try\<close>.
\<close>

fun wasted_space :: "fs \<Rightarrow> hash_groups \<Rightarrow> nat \<Rightarrow> exn + nat" where
  "wasted_space fs [] duplicate_size = Inr duplicate_size"
| "wasted_space fs ((h, files) # rest) duplicate_size =
     (case files of
        [] \<Rightarrow> Inl IndexError
      | first # others \<Rightarrow>
          (case stat_size fs first of
             Inl e \<Rightarrow> Inl e
           | Inr file_size \<Rightarrow>
               wasted_space fs rest (duplicate_size + file_size * (length files - 1))))"

text \<open>
  The removal loops: \<^verbatim>\<open>for file_path in files[1:]\<close> unlinks inside a \<^verbatim>\<open>try\<close>; a
  success adds one to \<open>removed\<close>, a failure prints one line naming the file. The state is
  the file store, \<open>removed\<close>, and the files named by the printed failure lines.
\<close>

fun remove_files :: "path list \<Rightarrow> fs \<times> nat \<times> path list \<Rightarrow> fs \<times> nat \<times> path list" where
  "remove_files [] (fs, removed, failed) = (fs, removed, failed)"
| "remove_files (file_path # rest) (fs, removed, failed) =
     (case unlink fs file_path of
        Inr fs1 \<Rightarrow> remove_files rest (fs1, removed + 1, failed)
      | Inl e \<Rightarrow> remove_files rest (fs, removed, failed @ [file_path]))"

fun remove_groups :: "hash_groups \<Rightarrow> fs \<times> nat \<times> path list \<Rightarrow> fs \<times> nat \<times> path list" where
  "remove_groups [] state = state"
| "remove_groups ((h, files) # rest) state = remove_groups rest (remove_files (tl files) state)"

text \<open>
  What the operation shows: the number of files it analyzes, the duplicate sets, their
  count of surplus files, the space reported as wasted and, after a removal, the number
  of files removed, the space reported as freed, and the failure lines.
\<close>

record duplicates_report =
  shown_total_files :: nat
  shown_sets :: hash_groups
  shown_total_duplicates :: nat
  shown_wasted :: nat
  shown_removed :: "nat option"
  shown_freed :: "nat option"
  shown_failures :: "path list"

text \<open>
  \<open>find_duplicates_threaded\<close> from the scanned list on. \<open>remove\<close> says that
  \<open>auto_remove\<close> was set and the removal confirmed. With no files, or with no
  duplicates, the function returns early: the report is empty. The space reported as
  freed after the removal is \<open>duplicate_size\<close>, the figure computed by the report loop.
  The two figures shown after a removal are those of the rich-console branch; the plain
  branch computes \<open>removed\<close> alike and prints nothing after the loop.
\<close>

definition find_duplicates_threaded ::
  "(byte list \<Rightarrow> digest) \<Rightarrow> ((path \<times> digest option) list \<Rightarrow> (path \<times> digest option) list)
     \<Rightarrow> fs \<Rightarrow> path list \<Rightarrow> bool \<Rightarrow> exn + (duplicates_report \<times> fs)"
where
  "find_duplicates_threaded md5 completion fs all_files remove =
     (let duplicates = (if all_files = [] then [] else find_duplicates md5 completion fs all_files) in
      if duplicates = [] then
        Inr (\<lparr>shown_total_files = length all_files,
               shown_sets = [], shown_total_duplicates = 0, shown_wasted = 0,
               shown_removed = None, shown_freed = None, shown_failures = []\<rparr>, fs)
      else
        (let total_duplicates = count_duplicates duplicates in
         case wasted_space fs duplicates 0 of
           Inl e \<Rightarrow> Inl e
         | Inr duplicate_size \<Rightarrow>
             if remove then
               (case remove_groups duplicates (fs, 0, []) of
                  (fs1, removed, failed) \<Rightarrow>
                    Inr (\<lparr>shown_total_files = length all_files,
                           shown_sets = duplicates, shown_total_duplicates = total_duplicates,
                           shown_wasted = duplicate_size, shown_removed = Some removed,
                           shown_freed = Some duplicate_size, shown_failures = failed\<rparr>, fs1))
             else
               Inr (\<lparr>shown_total_files = length all_files,
                      shown_sets = duplicates, shown_total_duplicates = total_duplicates,
                      shown_wasted = duplicate_size, shown_removed = None,
                      shown_freed = None, shown_failures = []\<rparr>, fs)))"

text \<open>
  Helpers for stating results: the files of a result list that hashed to a given
  digest, in order; and whether a path holds a regular file that may be read.
\<close>

definition files_hashed_to :: "digest \<Rightarrow> (path \<times> digest option) list \<Rightarrow> path list" where
  "files_hashed_to h results = map fst (filter (\<lambda>x. snd x = Some h) results)"

definition readable_file :: "fs \<Rightarrow> path \<Rightarrow> bool" where
  "readable_file fs p = (case fs p of Some (File c r m) \<Rightarrow> r | _ \<Rightarrow> False)"

subsection \<open>Concrete inputs for the examples\<close>

text \<open>
  A directory \<^verbatim>\<open>r\<close> with a picture, a link to a regular file, a subdirectory holding a
  text file, and a subdirectory that may not be read.
\<close>

definition example_tree :: tree where
  "example_tree =
     Directory True True
       [(''a.jpg'', RegFile 3),
        (''latest'', Link (RegFile 5)),
        (''sub'', Directory True True [(''b.txt'', RegFile 5)]),
        (''locked'', Directory False True [(''c.txt'', RegFile 1)])]"

text \<open>
  A directory \<^verbatim>\<open>r\<close> with a picture and a subdirectory \<^verbatim>\<open>private\<close> that may be read
  but not searched (mode \<^verbatim>\<open>r--\<close>) and holds one file.
\<close>

definition private_tree :: tree where
  "private_tree =
     Directory True True
       [(''a.jpg'', RegFile 3),
        (''private'', Directory True False [(''c.txt'', RegFile 1)])]"

text \<open>
  A directory \<^verbatim>\<open>r\<close> with a subdirectory \<^verbatim>\<open>T\<close> that holds a file \<^verbatim>\<open>f\<close> and a
  subdirectory \<^verbatim>\<open>s\<close> with a file \<^verbatim>\<open>g\<close>, and a symbolic link \<^verbatim>\<open>L\<close> to \<^verbatim>\<open>T\<close>.
\<close>

definition linked_tree :: tree where
  "linked_tree =
     Directory True True
       [(''T'', Directory True True
                  [(''f'', RegFile 1), (''s'', Directory True True [(''g'', RegFile 1)])]),
        (''L'', Link (Directory True True
                  [(''f'', RegFile 1), (''s'', Directory True True [(''g'', RegFile 1)])]))]"

text \<open>
  A directory \<^verbatim>\<open>r\<close> with a file \<^verbatim>\<open>x.tmp\<close> and a subdirectory \<^verbatim>\<open>private\<close> that may be
  read but not searched and holds one file.
\<close>

definition private_sweep_tree :: tree where
  "private_sweep_tree =
     Directory True True
       [(''x.tmp'', RegFile 4),
        (''private'', Directory True False [(''c.txt'', RegFile 1)])]"

text \<open>A directory \<^verbatim>\<open>r\<close> with files for the sweep, one of them in a subdirectory.\<close>

definition sweep_tree :: tree where
  "sweep_tree =
     Directory True True
       [(''x.tmp'', RegFile 4),
        (''report.pdf'', RegFile 9),
        (''sub'', Directory True True [(''cache_data.bin'', RegFile 2), (''notes.txt'', RegFile 1)])]"

text \<open>
  A store in which \<^verbatim>\<open>r/Images\<close> already holds \<^verbatim>\<open>a.jpg\<close> and \<^verbatim>\<open>a_1.jpg\<close>, with another
  \<^verbatim>\<open>a.jpg\<close>, a file without extension and a document that may not be moved in \<^verbatim>\<open>r\<close>.
\<close>

definition example_store :: fs where
  "example_store =
     [[''r''] \<mapsto> Dir,
      [''r'', ''a.jpg''] \<mapsto> File [1, 2] True True,
      [''r'', ''README''] \<mapsto> File [7] True True,
      [''r'', ''b.pdf''] \<mapsto> File [3] True False,
      [''r'', ''Images''] \<mapsto> Dir,
      [''r'', ''Images'', ''a.jpg''] \<mapsto> File [] True True,
      [''r'', ''Images'', ''a_1.jpg''] \<mapsto> File [] True True]"

text \<open>A directory that holds a single file without extension.\<close>

definition readme_store :: fs where
  "readme_store = [[''r''] \<mapsto> Dir, [''r'', ''README''] \<mapsto> File [7] True True]"

text \<open>
  A store in which \<^verbatim>\<open>r/Others\<close> already holds a file named like the uncategorized file
  \<^verbatim>\<open>r/x.xyz\<close>, as after an earlier run over a directory that held an \<^verbatim>\<open>x.xyz\<close>. A scan of
  \<^verbatim>\<open>r\<close> returns both files.
\<close>

definition others_conflict_store :: fs where
  "others_conflict_store =
     [[''r''] \<mapsto> Dir,
      [''r'', ''x.xyz''] \<mapsto> File [1] True True,
      [''r'', ''Others''] \<mapsto> Dir,
      [''r'', ''Others'', ''x.xyz''] \<mapsto> File [2] True True]"

text \<open>
  A store with two pictures of the same name and different content in two
  subdirectories of \<^verbatim>\<open>r\<close>. A scan of \<^verbatim>\<open>r\<close> returns both.
\<close>

definition same_name_store :: fs where
  "same_name_store =
     [[''r''] \<mapsto> Dir,
      [''r'', ''a''] \<mapsto> Dir,
      [''r'', ''b''] \<mapsto> Dir,
      [''r'', ''a'', ''x.jpg''] \<mapsto> File [1] True True,
      [''r'', ''b'', ''x.jpg''] \<mapsto> File [2] True True]"

text \<open>
  Stores for the duplicate finder: two files of equal content of which the second may
  not be unlinked; three files of equal content of which the second may not be
  unlinked; and two files of equal content beside a file that may not be read.
\<close>

definition locked_twin_store :: fs where
  "locked_twin_store =
     [[''a''] \<mapsto> File [1, 2, 3] True True, [''b''] \<mapsto> File [1, 2, 3] True False]"

definition triple_store :: fs where
  "triple_store =
     [[''a''] \<mapsto> File [1, 2, 3] True True,
      [''b''] \<mapsto> File [1, 2, 3] True False,
      [''c''] \<mapsto> File [1, 2, 3] True True]"

definition unreadable_store :: fs where
  "unreadable_store =
     [[''a''] \<mapsto> File [1, 2] True True,
      [''b''] \<mapsto> File [1, 2] True True,
      [''u''] \<mapsto> File [9] False True]"

section \<open>Properties of the scan and of the sweep\<close>

lemma lower_ascii: "list_all is_ascii s \<Longrightarrow> lower L s = ascii_lower s"
  using lower[of L] by simp

lemma scan_entries_searchable:
  "scan_entries d True es (lf, q) =
     (lf @ map (\<lambda>e. joinpath d (fst e)) (filter (\<lambda>e. is_file (snd e)) es),
      q @ concat (map (\<lambda>e. if is_file (snd e) then [QFile (joinpath d (fst e))]
                           else if is_dir (snd e) then [QDir (joinpath d (fst e))] else []) es))"
  by (induction es arbitrary: lf q) (auto simp: Let_def examine_def)

lemma scan_entries_unsearchable:
  "scan_entries d False es (lf, q) = (lf, if es = [] then q else q @ [QError d])"
  by (cases es) (auto simp: Let_def examine_def)

lemma collect_files_eq: "collect_files rs acc = acc @ concat (map task_files rs)"
  by (induction rs acc rule: collect_files.induct) auto

lemma mset_concat_map_cong:
  "mset xs = mset ys \<Longrightarrow> mset (concat (map f xs)) = mset (concat (map f ys))"
proof -
  assume h: "mset xs = mset ys"
  have "\<And>zs. mset (concat (map f zs)) = (\<Sum>z\<in>#mset zs. mset (f z))"
    by (induct_tac zs) auto
  then show ?thesis using h by simp
qed

lemma set_concat_map_cong:
  "mset xs = mset ys \<Longrightarrow> set (concat (map f xs)) = set (concat (map f ys))"
  using mset_concat_map_cong[of xs ys f] by (metis set_mset_mset)

lemma directories_in_append:
  "directories_in (xs @ ys) = directories_in xs @ directories_in ys"
  by (induction xs rule: directories_in.induct) auto

lemma first_pass_examined:
  "examined items \<Longrightarrow> first_pass items ds = Inr (ds @ directories_in items)"
  by (induction items ds rule: first_pass.induct) (auto simp: examined_def)

lemma first_pass_returns:
  "first_pass items ds = Inr ds' \<Longrightarrow> examined items"
  by (induction items ds rule: first_pass.induct) (auto simp: examined_def split: if_splits)

lemma first_pass_raises:
  "first_pass items ds = Inl exc \<Longrightarrow> \<exists>item. (item, Inl exc) \<in> set items"
  by (induction items ds rule: first_pass.induct) (auto split: if_splits)

lemma examined_append: "examined (xs @ ys) \<longleftrightarrow> examined xs \<and> examined ys"
  by (simp add: examined_def)

lemma examined_entries:
  "examined (map (\<lambda>e. (joinpath p (fst e), examine searchable (snd e))) es)
     \<longleftrightarrow> es = [] \<or> searchable"
  by (cases es) (auto simp: examined_def examine_def list_all_iff)

lemma rglob_examined:
  "examined (rglob p t) \<longleftrightarrow> passable t"
  "examined (descend p es) \<longleftrightarrow> passable_entries es"
proof (induction p t and p es rule: rglob_descend.induct)
  case (1 p readable searchable es)
  show ?case
  proof (cases "readable \<and> searchable")
    case True
    with 1 have ih: "examined (descend p es) \<longleftrightarrow> passable_entries es" by simp
    have e: "examined (map (\<lambda>e. (joinpath p (fst e), examine searchable (snd e))) es)"
      using True by (simp add: examined_entries)
    have n: "es = [] \<Longrightarrow> passable_entries es" by simp
    from True ih e n show ?thesis by (auto simp: examined_append)
  next
    case False
    have "examined [] " by (simp add: examined_def)
    with False show ?thesis by (auto simp: examined_append examined_entries)
  qed
next
  case (7 p e es)
  then show ?case by (simp add: examined_append)
qed (simp_all add: examined_def)

lemma rglob_raises_permission:
  "(item, Inl exc) \<in> set (rglob p t) \<Longrightarrow> exc = PermissionError"
  "(item, Inl exc) \<in> set (descend p es) \<Longrightarrow> exc = PermissionError"
proof (induction p t and p es rule: rglob_descend.induct)
  case (1 p readable searchable es)
  then show ?case by (auto simp: examine_def split: if_splits)
qed auto

lemma rglob_not_dir: "\<not> is_dir t \<Longrightarrow> rglob p t = []"
  by (cases t) simp_all

lemma is_file_not_dir: "is_file t \<Longrightarrow> \<not> is_dir t"
  by (induction t) simp_all

lemma real_directory: "is_dir t \<Longrightarrow> no_dir_links t \<Longrightarrow> target t = t"
  by (cases t) simp_all

lemma walk_not_dir: "\<not> is_dir t \<Longrightarrow> independent_walk p t = []"
  by (cases t) simp_all

lemma directories_in_entries:
  "directories_in (map (\<lambda>e. (joinpath p (fst e), examine True (snd e))) es)
     = map (\<lambda>e. (joinpath p (fst e), snd e)) (filter (\<lambda>e. is_dir (snd e)) es)"
  by (induction es) (simp_all add: examine_def)

lemma walk_split:
  "passable t \<Longrightarrow> no_dir_links t \<Longrightarrow>
     mset (task_files (scan_target p t))
       + mset (concat (map (\<lambda>d. task_files (scan_directory d)) (directories_in (rglob p t))))
     = mset (independent_walk p t)"
  "passable_entries es \<Longrightarrow> no_dir_links_entries es \<Longrightarrow>
     mset (map (\<lambda>e. joinpath p (fst e)) (filter (\<lambda>e. is_file (snd e)) es))
       + mset (concat (map (\<lambda>d. task_files (scan_directory d))
                 (map (\<lambda>e. (joinpath p (fst e), snd e)) (filter (\<lambda>e. is_dir (snd e)) es))))
       + mset (concat (map (\<lambda>d. task_files (scan_directory d)) (directories_in (descend p es))))
     = mset (independent_walk_entries p es)"
proof (induction p t and p es rule: rglob_descend.induct)
  case (1 p readable searchable es)
  show ?case
  proof (cases "readable \<and> searchable")
    case True
    with 1 have "mset (map (\<lambda>e. joinpath p (fst e)) (filter (\<lambda>e. is_file (snd e)) es))
       + mset (concat (map (\<lambda>d. task_files (scan_directory d))
                 (map (\<lambda>e. (joinpath p (fst e), snd e)) (filter (\<lambda>e. is_dir (snd e)) es))))
       + mset (concat (map (\<lambda>d. task_files (scan_directory d)) (directories_in (descend p es))))
     = mset (independent_walk_entries p es)" by (auto split: if_splits)
    with True show ?thesis
      by (simp add: scan_entries_searchable directories_in_append directories_in_entries comp_def add.assoc)
  next
    case False
    with "1.prems" show ?thesis
      by (auto simp: scan_entries_unsearchable split: if_splits)
  qed
next
  case (7 p e es)
  from "7.prems" have pe: "passable (snd e)" and pes: "passable_entries es"
    and ne: "no_dir_links (snd e)" and nes: "no_dir_links_entries es" by simp_all
  note ih1 = "7.IH"(1)[OF pe ne]
  note ih2 = "7.IH"(2)[OF pes nes]
  show ?case
  proof (cases "is_dir (snd e)")
    case True
    then have nf: "\<not> is_file (snd e)" using is_file_not_dir by blast
    have sd: "scan_directory (joinpath p (fst e), snd e) = scan_target (joinpath p (fst e)) (snd e)"
      using real_directory[OF True ne] by (simp add: scan_directory_def)
    from True nf sd show ?thesis
      by (simp add: directories_in_append comp_def ih1[symmetric] ih2[symmetric] ac_simps)
  next
    case False
    then have r: "rglob (joinpath p (fst e)) (snd e) = []" by (rule rglob_not_dir)
    from False have w: "independent_walk (joinpath p (fst e)) (snd e) = []" by (rule walk_not_dir)
    from False r w show ?thesis by (simp add: comp_def ih2[symmetric] ac_simps)
  qed
qed simp_all

lemma dirs_not_dir: "\<not> is_dir t \<Longrightarrow> independent_dirs p t = []"
  by (cases t) simp_all

lemma dirs_split:
  "passable t \<Longrightarrow>
     mset (map fst (directories_in (rglob p t))) = mset (independent_dirs p t)"
  "passable_entries es \<Longrightarrow>
     mset (map (\<lambda>e. joinpath p (fst e)) (filter (\<lambda>e. is_dir (snd e)) es))
       + mset (map fst (directories_in (descend p es)))
     = mset (independent_dirs_entries p es)"
proof (induction p t and p es rule: rglob_descend.induct)
  case (1 p readable searchable es)
  show ?case
  proof (cases "readable \<and> searchable")
    case True
    with 1 have "mset (map (\<lambda>e. joinpath p (fst e)) (filter (\<lambda>e. is_dir (snd e)) es))
       + mset (map fst (directories_in (descend p es)))
     = mset (independent_dirs_entries p es)" by (auto split: if_splits)
    with True show ?thesis
      by (simp add: directories_in_append directories_in_entries comp_def)
  next
    case False
    with "1.prems" show ?thesis by (auto split: if_splits)
  qed
next
  case (7 p e es)
  from "7.prems" have pe: "passable (snd e)" and pes: "passable_entries es" by simp_all
  note ih1 = "7.IH"(1)[OF pe]
  note ih2 = "7.IH"(2)[OF pes]
  show ?case
  proof (cases "is_dir (snd e)")
    case True
    then show ?thesis by (simp add: directories_in_append ih1[symmetric] ih2[symmetric] ac_simps)
  next
    case False
    then have r: "rglob (joinpath p (fst e)) (snd e) = []" by (rule rglob_not_dir)
    from False r show ?thesis by (simp add: ih2[symmetric] dirs_not_dir)
  qed
qed simp_all

lemma walk_prefix:
  "x \<in> set (independent_walk p t) \<Longrightarrow> \<exists>n rest. x = p @ n # rest"
  "x \<in> set (independent_walk_entries p es) \<Longrightarrow> \<exists>n rest. n \<in> fst ` set es \<and> x = p @ n # rest"
proof (induction p t and p es arbitrary: x and x rule: independent_walk_independent_walk_entries.induct)
  case (1 p readable searchable es)
  then show ?case by (fastforce split: if_splits)
next
  case (7 p e es)
  from "7.prems" consider
      (a) "is_file (snd e)" "x = joinpath p (fst e)"
    | (b) "\<not> is_file (snd e)" "x \<in> set (independent_walk (joinpath p (fst e)) (snd e))"
    | (c) "x \<in> set (independent_walk_entries p es)"
    by (auto split: if_splits)
  then show ?case
  proof cases
    case a
    then show ?thesis by (auto simp: joinpath_def)
  next
    case b
    with "7.IH"(1)[of x] obtain n rest where "x = joinpath p (fst e) @ n # rest" by blast
    then show ?thesis by (auto simp: joinpath_def)
  next
    case c
    with "7.IH"(2)[of x] show ?thesis by auto
  qed
qed simp_all

lemma walk_distinct:
  "wf_tree t \<Longrightarrow> distinct (independent_walk p t)"
  "wf_entries es \<Longrightarrow> distinct (map fst es) \<Longrightarrow> distinct (independent_walk_entries p es)"
proof (induction p t and p es rule: independent_walk_independent_walk_entries.induct)
  case (7 p e es)
  have disj: "x \<in> set (independent_walk_entries p es) \<Longrightarrow>
      x \<noteq> joinpath p (fst e) \<and> x \<notin> set (independent_walk (joinpath p (fst e)) (snd e))" for x
  proof -
    assume "x \<in> set (independent_walk_entries p es)"
    then obtain n rest where n: "n \<in> fst ` set es" "x = p @ n # rest"
      using walk_prefix(2)[of x p es] by blast
    have ne: "n \<noteq> fst e"
    proof
      assume "n = fst e"
      with n(1) have "fst e \<in> set (map fst es)" by simp
      with "7.prems"(2) show False by simp
    qed
    have "x \<noteq> joinpath p (fst e)" using n(2) ne by (simp add: joinpath_def)
    moreover have "x \<notin> set (independent_walk (joinpath p (fst e)) (snd e))"
    proof
      assume "x \<in> set (independent_walk (joinpath p (fst e)) (snd e))"
      then obtain m r where "x = joinpath p (fst e) @ m # r"
        using walk_prefix(1)[of x "joinpath p (fst e)" "snd e"] by blast
      with n(2) ne show False by (simp add: joinpath_def)
    qed
    ultimately show ?thesis by simp
  qed
  from 7 show ?case using disj by auto
qed simp_all

lemma lookup_below_file: "is_file t \<Longrightarrow> lookup t (n # rest) = None"
  by (cases t) simp_all

lemma reachable_not_dir:
  "reachable_files (RegFile s) = {}" "reachable_files Special = {}"
  "reachable_files (Link t) = {}" "reachable_files Dangling = {}"
  "\<not> (readable \<and> searchable) \<Longrightarrow> reachable_files (Directory readable searchable es) = {}"
  "reachable_files (Directory True True []) = {}"
proof -
  have a: "\<And>rel. rel \<noteq> [] \<Longrightarrow> lookup (RegFile s) rel = None" by (case_tac rel) simp_all
  have b: "\<And>rel. rel \<noteq> [] \<Longrightarrow> lookup Special rel = None" by (case_tac rel) simp_all
  have b1: "\<And>rel. rel \<noteq> [] \<Longrightarrow> lookup (Link t) rel = None" by (case_tac rel) simp_all
  have b2: "\<And>rel. rel \<noteq> [] \<Longrightarrow> lookup Dangling rel = None" by (case_tac rel) simp_all
  have c: "\<And>rel. \<not> (readable \<and> searchable) \<Longrightarrow> rel \<noteq> [] \<Longrightarrow>
      lookup (Directory readable searchable es) rel = None" by (case_tac rel) auto
  have d: "\<And>rel. rel \<noteq> [] \<Longrightarrow> lookup (Directory True True []) rel = None" by (case_tac rel) simp_all
  show "reachable_files (RegFile s) = {}" using a by (auto simp: reachable_files_def)
  show "reachable_files Special = {}" using b by (auto simp: reachable_files_def)
  show "reachable_files (Link t) = {}" using b1 by (auto simp: reachable_files_def)
  show "reachable_files Dangling = {}" using b2 by (auto simp: reachable_files_def)
  show "\<not> (readable \<and> searchable) \<Longrightarrow> reachable_files (Directory readable searchable es) = {}"
    using c by (auto simp: reachable_files_def)
  show "reachable_files (Directory True True []) = {}" using d by (auto simp: reachable_files_def)
qed

lemma reachable_cons:
  assumes "fst e \<notin> set (map fst es)"
  shows "reachable_files (Directory True True (e # es))
     = (\<lambda>rest. fst e # rest) ` {rest. \<exists>t'. lookup (snd e) rest = Some t' \<and> is_file t'}
       \<union> reachable_files (Directory True True es)"
proof -
  have none: "map_of es (fst e) = None" using assms by (simp add: map_of_eq_None_iff)
  have l: "\<And>n rest. lookup (Directory True True (e # es)) (n # rest)
      = (if n = fst e then lookup (snd e) rest else lookup (Directory True True es) (n # rest))"
    by (cases e) auto
  have l2: "\<And>rest. lookup (Directory True True es) (fst e # rest) = None" using none by simp
  show ?thesis
  proof (rule set_eqI)
    fix rel
    show "rel \<in> reachable_files (Directory True True (e # es)) \<longleftrightarrow>
        rel \<in> (\<lambda>rest. fst e # rest) ` {rest. \<exists>t'. lookup (snd e) rest = Some t' \<and> is_file t'}
              \<union> reachable_files (Directory True True es)"
    proof (cases rel)
      case Nil
      then show ?thesis by (auto simp: reachable_files_def)
    next
      case (Cons n rest)
      show ?thesis
      proof (cases "n = fst e")
        case True
        with Cons l[of n rest] l2[of rest] show ?thesis
          by (auto simp: reachable_files_def simp del: lookup.simps)
      next
        case False
        with Cons l[of n rest] show ?thesis
          by (auto simp: reachable_files_def simp del: lookup.simps)
      qed
    qed
  qed
qed

lemma walk_reachable:
  "wf_tree t \<Longrightarrow> set (independent_walk p t) = (\<lambda>rel. p @ rel) ` reachable_files t"
  "wf_entries es \<Longrightarrow> distinct (map fst es) \<Longrightarrow>
     set (independent_walk_entries p es) = (\<lambda>rel. p @ rel) ` reachable_files (Directory True True es)"
proof (induction p t and p es rule: independent_walk_independent_walk_entries.induct)
  case (1 p readable searchable es)
  then show ?case by (cases "readable \<and> searchable") (auto simp: reachable_not_dir)
next
  case (2 p uu)
  then show ?case by (simp add: reachable_not_dir)
next
  case (3 p)
  then show ?case by (simp add: reachable_not_dir)
next
  case (4 p uv)
  then show ?case by (simp add: reachable_not_dir)
next
  case (5 p)
  then show ?case by (simp add: reachable_not_dir)
next
  case (6 p)
  then show ?case by (simp add: reachable_not_dir)
next
  case (7 p e es)
  from "7.prems" have wfe: "wf_tree (snd e)" and wfes: "wf_entries es"
    and d: "distinct (map fst es)" and ne: "fst e \<notin> set (map fst es)" by simp_all
  have rest: "set (independent_walk_entries p es)
      = (\<lambda>rel. p @ rel) ` reachable_files (Directory True True es)"
    using "7.IH"(2)[OF wfes d] .
  have first: "set (if is_file (snd e) then [joinpath p (fst e)]
                    else independent_walk (joinpath p (fst e)) (snd e))
      = (\<lambda>rel. p @ rel) ` (\<lambda>rest. fst e # rest) ` {rest. \<exists>t'. lookup (snd e) rest = Some t' \<and> is_file t'}"
  proof (cases "is_file (snd e)")
    case True
    have "{rest. \<exists>t'. lookup (snd e) rest = Some t' \<and> is_file t'} = {[]}"
    proof (rule set_eqI)
      fix rest show "rest \<in> {rest. \<exists>t'. lookup (snd e) rest = Some t' \<and> is_file t'} \<longleftrightarrow> rest \<in> {[]}"
        using True by (cases rest) (auto simp: lookup_below_file)
    qed
    with True show ?thesis by (simp add: joinpath_def)
  next
    case False
    have "{rest. \<exists>t'. lookup (snd e) rest = Some t' \<and> is_file t'} = reachable_files (snd e)"
    proof (rule set_eqI)
      fix rest
      show "rest \<in> {rest. \<exists>t'. lookup (snd e) rest = Some t' \<and> is_file t'} \<longleftrightarrow> rest \<in> reachable_files (snd e)"
        using False by (cases rest) (auto simp: reachable_files_def)
    qed
    moreover have "set (independent_walk (joinpath p (fst e)) (snd e))
        = (\<lambda>rel. joinpath p (fst e) @ rel) ` reachable_files (snd e)"
      using "7.IH"(1)[OF False wfe] .
    ultimately show ?thesis using False by (simp add: joinpath_def image_image)
  qed
  have "set (independent_walk_entries p (e # es))
      = set (if is_file (snd e) then [joinpath p (fst e)]
             else independent_walk (joinpath p (fst e)) (snd e))
        \<union> set (independent_walk_entries p es)" by simp
  also have "\<dots> = (\<lambda>rel. p @ rel) ` reachable_files (Directory True True (e # es))"
    unfolding first rest reachable_cons[OF ne] by (simp only: image_Un)
  finally show ?case .
qed

lemma files_in_append: "files_in (xs @ ys) = files_in xs @ files_in ys"
  by (induction xs rule: files_in.induct) auto

lemma files_in_entries:
  "files_in (map (\<lambda>e. (joinpath p (fst e), examine True (snd e))) es)
     = map (\<lambda>e. joinpath p (fst e)) (filter (\<lambda>e. is_file (snd e)) es)"
  by (induction es) (simp_all add: examine_def)

lemma files_split:
  "passable t \<Longrightarrow> mset (files_in (rglob p t)) = mset (independent_walk p t)"
  "passable_entries es \<Longrightarrow>
     mset (map (\<lambda>e. joinpath p (fst e)) (filter (\<lambda>e. is_file (snd e)) es))
       + mset (files_in (descend p es))
     = mset (independent_walk_entries p es)"
proof (induction p t and p es rule: rglob_descend.induct)
  case (1 p readable searchable es)
  show ?case
  proof (cases "readable \<and> searchable")
    case True
    with 1 have "mset (map (\<lambda>e. joinpath p (fst e)) (filter (\<lambda>e. is_file (snd e)) es))
       + mset (files_in (descend p es)) = mset (independent_walk_entries p es)"
      by (auto split: if_splits)
    with True show ?thesis by (simp add: files_in_append files_in_entries)
  next
    case False
    with "1.prems" show ?thesis by (auto split: if_splits)
  qed
next
  case (7 p e es)
  from "7.prems" have pe: "passable (snd e)" and pes: "passable_entries es" by simp_all
  note ih1 = "7.IH"(1)[OF pe]
  note ih2 = "7.IH"(2)[OF pes]
  show ?case
  proof (cases "is_file (snd e)")
    case True
    then have "\<not> is_dir (snd e)" by (rule is_file_not_dir)
    then have r: "rglob (joinpath p (fst e)) (snd e) = []" by (rule rglob_not_dir)
    from True r show ?thesis by (simp add: ih2[symmetric])
  next
    case False
    then show ?thesis by (simp add: files_in_append ih1[symmetric] ih2[symmetric] ac_simps)
  qed
qed simp_all

lemma sweep_loop_examined:
  "examined items \<Longrightarrow>
     \<exists>total. sweep_loop L items (tf, ts)
       = Inr (tf @ filter (\<lambda>f. by_extension f \<or> by_pattern L f) (files_in items), total)"
  by (induction L items "(tf, ts)" arbitrary: tf ts rule: sweep_loop.induct)
     (auto simp: examined_def)

lemma sweep_loop_returns:
  "sweep_loop L items acc = Inr r \<Longrightarrow> examined items"
  by (induction L items acc rule: sweep_loop.induct) (auto simp: examined_def split: if_splits)

lemma sweep_returns_iff:
  "(\<exists>temp_files total_size. temp_candidates L p t = Inr (temp_files, total_size))
     \<longleftrightarrow> passable (target t)"
proof
  assume "\<exists>temp_files total_size. temp_candidates L p t = Inr (temp_files, total_size)"
  then have "examined (rglob p (target t))"
    unfolding temp_candidates_def using sweep_loop_returns by blast
  then show "passable (target t)" by (simp add: rglob_examined)
next
  assume "passable (target t)"
  then have "examined (rglob p (target t))" by (simp add: rglob_examined)
  from sweep_loop_examined[OF this, of L "[]" 0]
  show "\<exists>temp_files total_size. temp_candidates L p t = Inr (temp_files, total_size)"
    unfolding temp_candidates_def by blast
qed

lemma sweep_candidates:
  assumes "temp_candidates L p t = Inr (temp_files, total_size)"
  shows "set temp_files
     = {f \<in> set (independent_walk p (target t)). by_extension f \<or> by_pattern L f}"
proof -
  from assms have ex: "examined (rglob p (target t))"
    unfolding temp_candidates_def by (rule sweep_loop_returns)
  then have pa: "passable (target t)" by (simp add: rglob_examined)
  from sweep_loop_examined[OF ex, of L "[]" 0] assms
  have "temp_files = filter (\<lambda>f. by_extension f \<or> by_pattern L f) (files_in (rglob p (target t)))"
    unfolding temp_candidates_def by auto
  moreover have "set (files_in (rglob p (target t))) = set (independent_walk p (target t))"
    using arg_cong[OF files_split(1)[OF pa, of p], of set_mset] by simp
  ultimately show ?thesis by auto
qed

lemma wf_target: "wf_tree (target t) = wf_tree t"
  by (induction t) simp_all

lemma name_append: "name (p @ d @ [n]) = n"
  by (simp add: name_def)

text \<open>
  The sweep over \<^verbatim>\<open>r\<close> with \<^verbatim>\<open>x.tmp\<close> and the subdirectory \<^verbatim>\<open>private\<close> that may be read
  but not searched: \<^verbatim>\<open>rglob\<close> yields \<^verbatim>\<open>r/private/c.txt\<close>, \<^verbatim>\<open>is_file\<close> raises on it,
  and the \<^verbatim>\<open>PermissionError\<close> leaves \<open>clean_temp_files\<close> before any candidate is shown.
\<close>

lemma sweep_stops_at_unsearchable_directory:
  "temp_candidates L [''r''] private_sweep_tree = Inl PermissionError"
  by (simp add: temp_candidates_def private_sweep_tree_def examine_def joinpath_def name_def
        by_extension_def temp_extensions_def endswith_def suffix_to_prefix)

text \<open>
  Claim C10. Let the sweep's loop over \<^verbatim>\<open>rglob\<close> end, in a tree in which no directory
  holds a name twice. Then a path is among the candidates exactly when \<^verbatim>\<open>is_file\<close>
  holds of it, it can be reached below the root, and its name ends with one of the nine
  suffixes or its lower-cased name contains one of the four substrings, whatever
  \<^verbatim>\<open>str.lower\<close> does outside ASCII. So every such file named \<^verbatim>\<open>x.tmp\<close> is a
  candidate, every such file named \<^verbatim>\<open>cache_data.bin\<close> is one, and no path named
  \<^verbatim>\<open>report.pdf\<close> is one, in whatever directory \<open>d\<close> below the root. The loop ends
  exactly when every entry that \<^verbatim>\<open>rglob\<close> yields can be examined; where one cannot
  (\<open>sweep_stops_at_unsearchable_directory\<close>) the sweep has no candidates at all.
\<close>

theorem temp_candidate_iff:
  "(temp_candidates L p t = Inr (temp_files, total_size) \<and> wf_tree t \<longrightarrow>
      (f \<in> set temp_files \<longleftrightarrow>
         (\<exists>rel \<in> reachable_files (target t). f = p @ rel) \<and>
         ((\<exists>ext \<in> set [''.tmp'', ''.temp'', ''.bak'', ''.log'', ''~'', ''.swp'', ''.cache'',
                          ''.crdownload'', ''.part'']. suffix ext (name f)) \<or>
          (\<exists>pat \<in> set [''cache'', ''temp'', ''tmp'', ''backup'']. sublist pat (lower L (name f)))))
      \<and> (d @ [''x.tmp''] \<in> reachable_files (target t) \<longrightarrow> p @ d @ [''x.tmp''] \<in> set temp_files)
      \<and> (d @ [''cache_data.bin''] \<in> reachable_files (target t)
            \<longrightarrow> p @ d @ [''cache_data.bin''] \<in> set temp_files)
      \<and> p @ d @ [''report.pdf''] \<notin> set temp_files)
   \<and> ((\<exists>temp_files total_size. temp_candidates L p t = Inr (temp_files, total_size))
         \<longleftrightarrow> passable (target t))"
proof (intro conjI impI)
  assume h: "temp_candidates L p t = Inr (temp_files, total_size) \<and> wf_tree t"
  then have wf: "wf_tree (target t)" by (simp add: wf_target)
  have mem: "g \<in> set temp_files \<longleftrightarrow>
      (\<exists>rel \<in> reachable_files (target t). g = p @ rel) \<and> (by_extension g \<or> by_pattern L g)" for g
    using sweep_candidates[of L p t temp_files total_size] h walk_reachable(1)[OF wf, of p]
    by auto
  show "f \<in> set temp_files \<longleftrightarrow>
         (\<exists>rel \<in> reachable_files (target t). f = p @ rel) \<and>
         ((\<exists>ext \<in> set [''.tmp'', ''.temp'', ''.bak'', ''.log'', ''~'', ''.swp'', ''.cache'',
                          ''.crdownload'', ''.part'']. suffix ext (name f)) \<or>
          (\<exists>pat \<in> set [''cache'', ''temp'', ''tmp'', ''backup'']. sublist pat (lower L (name f))))"
    unfolding mem[of f]
    by (simp add: by_extension_def by_pattern_def temp_extensions_def temp_patterns_def
          endswith_def contains_def)
  have a: "by_extension (p @ d @ [''x.tmp''])"
    by (simp add: name_append by_extension_def temp_extensions_def endswith_def suffix_to_prefix)
  have l1: "lower L ''cache_data.bin'' = ''cache_data.bin''"
    by (simp add: lower_ascii is_ascii_def ascii_lower_def ascii_lower_char_def)
  have l2: "lower L ''report.pdf'' = ''report.pdf''"
    by (simp add: lower_ascii is_ascii_def ascii_lower_def ascii_lower_char_def)
  have b: "by_pattern L (p @ d @ [''cache_data.bin''])"
    by (simp add: name_append by_pattern_def temp_patterns_def contains_def l1 sublist_Cons_right)
  have c: "\<not> by_extension (p @ d @ [''report.pdf''])"
    by (simp add: name_append by_extension_def temp_extensions_def endswith_def suffix_to_prefix)
  have e: "\<not> by_pattern L (p @ d @ [''report.pdf''])"
    by (simp add: name_append by_pattern_def temp_patterns_def contains_def l2 sublist_Cons_right)
  show "p @ d @ [''x.tmp''] \<in> set temp_files" if "d @ [''x.tmp''] \<in> reachable_files (target t)"
    using that a unfolding mem by blast
  show "p @ d @ [''cache_data.bin''] \<in> set temp_files"
    if "d @ [''cache_data.bin''] \<in> reachable_files (target t)"
    using that b unfolding mem by blast
  show "p @ d @ [''report.pdf''] \<notin> set temp_files" using c e unfolding mem by blast
next
  show "(\<exists>temp_files total_size. temp_candidates L p t = Inr (temp_files, total_size))
         \<longleftrightarrow> passable (target t)" by (rule sweep_returns_iff)
qed

theorem temp_candidate_iff_witness:
  "\<forall>L. temp_candidates L [''r''] sweep_tree
          = Inr ([[''r'', ''x.tmp''], [''r'', ''sub'', ''cache_data.bin'']], 6)
     \<and> wf_tree sweep_tree
     \<and> [''x.tmp''] \<in> reachable_files (target sweep_tree)
     \<and> [''sub'', ''cache_data.bin''] \<in> reachable_files (target sweep_tree)
     \<and> [''report.pdf''] \<in> reachable_files (target sweep_tree)
     \<and> passable (target sweep_tree)"
proof
  fix L
  let ?tf = "[[''r'', ''x.tmp''], [''r'', ''sub'', ''cache_data.bin'']]"
  have l1: "lower L ''cache_data.bin'' = ''cache_data.bin''"
    by (simp add: lower_ascii is_ascii_def ascii_lower_def ascii_lower_char_def)
  have l2: "lower L ''report.pdf'' = ''report.pdf''"
    by (simp add: lower_ascii is_ascii_def ascii_lower_def ascii_lower_char_def)
  have l3: "lower L ''notes.txt'' = ''notes.txt''"
    by (simp add: lower_ascii is_ascii_def ascii_lower_def ascii_lower_char_def)
  have l4: "lower L ''sub'' = ''sub''"
    by (simp add: lower_ascii is_ascii_def ascii_lower_def ascii_lower_char_def)
  have run: "temp_candidates L [''r''] sweep_tree = Inr (?tf, 6)"
    by (simp add: temp_candidates_def sweep_tree_def examine_def joinpath_def name_def
          by_extension_def by_pattern_def temp_extensions_def temp_patterns_def endswith_def
          contains_def l1 l2 l3 l4 suffix_to_prefix sublist_Cons_right)
  have wf: "wf_tree sweep_tree" by (simp add: sweep_tree_def)
  have r1: "[''x.tmp''] \<in> reachable_files (target sweep_tree)"
    by (simp add: reachable_files_def sweep_tree_def)
  have r2: "[''sub'', ''cache_data.bin''] \<in> reachable_files (target sweep_tree)"
    by (simp add: reachable_files_def sweep_tree_def)
  have r3: "[''report.pdf''] \<in> reachable_files (target sweep_tree)"
    by (simp add: reachable_files_def sweep_tree_def)
  note th = temp_candidate_iff[of L "[''r'']" sweep_tree ?tf 6]
  from th run have pa: "passable (target sweep_tree)" by blast
  from run wf r1 r2 r3 pa
  show "temp_candidates L [''r''] sweep_tree = Inr (?tf, 6)
     \<and> wf_tree sweep_tree
     \<and> [''x.tmp''] \<in> reachable_files (target sweep_tree)
     \<and> [''sub'', ''cache_data.bin''] \<in> reachable_files (target sweep_tree)
     \<and> [''report.pdf''] \<in> reachable_files (target sweep_tree)
     \<and> passable (target sweep_tree)" by simp
qed

lemma scan_existing:
  "path_exists (Some t) \<Longrightarrow>
     scan_files_threaded completion p (Some t) =
       (case first_pass (rglob p (target t)) [(p, t)] of
          Inl exc \<Rightarrow> Inl exc
        | Inr directories \<Rightarrow>
            Inr \<lparr>scanned_files = collect_files (completion (map scan_directory directories)) [],
                 queued = concat (map queue_puts (completion (map scan_directory directories))),
                 printed = []\<rparr>)"
  by (simp add: scan_files_threaded_def Let_def split: sum.splits)

lemma scan_missing:
  "\<not> path_exists root \<Longrightarrow>
     scan_files_threaded completion p root
       = Inr \<lparr>scanned_files = [], queued = [], printed = [Path_does_not_exist p]\<rparr>"
  by (simp add: scan_files_threaded_def)

lemma scan_returns_iff:
  assumes "path_exists (Some t)"
  shows "(\<exists>res. scan_files_threaded completion p (Some t) = Inr res) \<longleftrightarrow> passable (target t)"
proof
  assume "\<exists>res. scan_files_threaded completion p (Some t) = Inr res"
  then obtain ds where "first_pass (rglob p (target t)) [(p, t)] = Inr ds"
    unfolding scan_existing[OF assms] by (auto split: sum.splits)
  then have "examined (rglob p (target t))" by (rule first_pass_returns)
  then show "passable (target t)" by (simp add: rglob_examined)
next
  assume "passable (target t)"
  then have "examined (rglob p (target t))" by (simp add: rglob_examined)
  from first_pass_examined[OF this, of "[(p, t)]"]
  show "\<exists>res. scan_files_threaded completion p (Some t) = Inr res"
    unfolding scan_existing[OF assms] by simp
qed

lemma scan_raises_permission:
  assumes "scan_files_threaded completion p root = Inl exc"
  shows "exc = PermissionError"
proof (cases "path_exists root")
  case False
  with assms show ?thesis by (simp add: scan_missing)
next
  case True
  then obtain t where t: "root = Some t" by (cases root) (auto simp: path_exists_def)
  with True assms have "first_pass (rglob p (target t)) [(p, t)] = Inl exc"
    by (auto simp: scan_existing split: sum.splits)
  from first_pass_raises[OF this] show ?thesis using rglob_raises_permission(1) by blast
qed

lemma scan_returned:
  assumes ex: "path_exists (Some t)"
    and run: "scan_files_threaded completion p (Some t) = Inr res"
  shows "passable (target t)"
    and "first_pass (rglob p (target t)) [(p, t)]
           = Inr ((p, t) # directories_in (rglob p (target t)))"
    and "scanned_files res = collect_files (completion (map scan_directory
           ((p, t) # directories_in (rglob p (target t))))) []"
    and "queued res = concat (map queue_puts (completion (map scan_directory
           ((p, t) # directories_in (rglob p (target t))))))"
    and "printed res = []"
proof -
  from run have "\<exists>res. scan_files_threaded completion p (Some t) = Inr res" by blast
  then show pa: "passable (target t)" using scan_returns_iff[OF ex] by blast
  then have "examined (rglob p (target t))" by (simp add: rglob_examined)
  from first_pass_examined[OF this, of "[(p, t)]"]
  show fp: "first_pass (rglob p (target t)) [(p, t)]
           = Inr ((p, t) # directories_in (rglob p (target t)))" by simp
  from run fp have res: "res = \<lparr>scanned_files = collect_files (completion (map scan_directory
           ((p, t) # directories_in (rglob p (target t))))) [],
        queued = concat (map queue_puts (completion (map scan_directory
           ((p, t) # directories_in (rglob p (target t)))))),
        printed = []\<rparr>"
    unfolding scan_existing[OF ex] by simp
  show "scanned_files res = collect_files (completion (map scan_directory
           ((p, t) # directories_in (rglob p (target t))))) []" by (simp add: res)
  show "queued res = concat (map queue_puts (completion (map scan_directory
           ((p, t) # directories_in (rglob p (target t))))))" by (simp add: res)
  show "printed res = []" by (simp add: res)
qed

lemma scan_root_directory: "scan_directory (p, t) = scan_target p (target t)"
  by (simp add: scan_directory_def)

lemma scan_continues_past_unreadable:
  assumes perm: "\<forall>xs. mset (completion xs) = mset xs"
    and ex: "path_exists (Some t)"
    and run: "scan_files_threaded completion p (Some t) = Inr res"
    and d: "(d, t') \<in> set ((p, t) # directories_in (rglob p (target t)))"
  shows "target t' = Directory False searchable es \<Longrightarrow> QError d \<in> set (queued res)"
    and "target t' = Directory True True es \<Longrightarrow> (n, node) \<in> set es \<Longrightarrow> is_file node \<Longrightarrow>
           joinpath d n \<in> set (scanned_files res)"
proof -
  let ?ds = "(p, t) # directories_in (rglob p (target t))"
  have q: "set (queued res) = set (concat (map queue_puts (map scan_directory ?ds)))"
    unfolding scan_returned(4)[OF ex run]
    using perm set_concat_map_cong[of "completion (map scan_directory ?ds)"
        "map scan_directory ?ds" queue_puts] by simp
  have f: "set (scanned_files res) = set (concat (map task_files (map scan_directory ?ds)))"
    unfolding scan_returned(3)[OF ex run] collect_files_eq
    using perm set_concat_map_cong[of "completion (map scan_directory ?ds)"
        "map scan_directory ?ds" task_files] by simp
  show "QError d \<in> set (queued res)" if "target t' = Directory False searchable es"
  proof -
    from that have "QError d \<in> set (queue_puts (scan_directory (d, t')))"
      by (simp add: scan_directory_def)
    with d show ?thesis unfolding q set_concat set_map by blast
  qed
  show "joinpath d n \<in> set (scanned_files res)"
    if "target t' = Directory True True es" "(n, node) \<in> set es" "is_file node"
  proof -
    from that have "joinpath d n \<in> set (task_files (scan_directory (d, t')))"
      by (force simp: scan_directory_def scan_entries_searchable)
    with d show ?thesis unfolding f set_concat set_map by blast
  qed
qed

text \<open>
  Claim C8 at its failing input. \<^verbatim>\<open>r/private\<close> may be read but not searched and holds
  a file. The first pass examines \<^verbatim>\<open>r/private/c.txt\<close> outside any \<^verbatim>\<open>try\<close>, and the
  \<^verbatim>\<open>PermissionError\<close> leaves \<open>scan_files_threaded\<close>: nothing is recorded and nothing
  is returned, whatever the order of completion (first conjunct). The task for that
  directory, had it run, would have caught the same error, recorded it for the
  directory and returned (second conjunct). Elsewhere the code does what the claim
  says: with nothing at the root path the scan returns the empty list and prints that
  the path does not exist (third conjunct); and in \<open>example_tree\<close>, where \<^verbatim>\<open>r/locked\<close>
  may not be read, the error is recorded for \<^verbatim>\<open>r/locked\<close> and the files of the other
  directories are returned (fourth conjunct; for every tree,
  \<open>scan_continues_past_unreadable\<close>).
\<close>

theorem first_pass_aborts_scan:
  "scan_files_threaded completion [''r''] (Some private_tree) = Inl PermissionError
   \<and> scan_directory ([''r'', ''private''], Directory True False [(''c.txt'', RegFile 1)])
       = Inr ([], [QError [''r'', ''private'']])
   \<and> scan_files_threaded completion [''r''] None
       = Inr \<lparr>scanned_files = [], queued = [], printed = [Path_does_not_exist [''r'']]\<rparr>
   \<and> scan_files_threaded (\<lambda>xs. xs) [''r''] (Some example_tree)
       = Inr \<lparr>scanned_files = [[''r'', ''a.jpg''], [''r'', ''latest''], [''r'', ''sub'', ''b.txt'']],
              queued = [QFile [''r'', ''a.jpg''], QFile [''r'', ''latest''], QDir [''r'', ''sub''],
                        QDir [''r'', ''locked''], QFile [''r'', ''sub'', ''b.txt''],
                        QError [''r'', ''locked'']],
              printed = []\<rparr>"
  by (simp add: scan_files_threaded_def path_exists_def private_tree_def example_tree_def
        examine_def joinpath_def scan_directory_def Let_def)

text \<open>
  Claim C9, as the code has it. Let the root exist, let the scan return, let no
  directory hold a name twice, and let no entry below the root be a link to a
  directory. Then, whatever the order in which the directory tasks complete, the list
  the scan returns is a rearrangement of the list of the independent walk: the same
  paths, each as often, hence the same count; no path is listed twice; and the paths
  listed are exactly those below the root at which \<^verbatim>\<open>is_file\<close> holds and that can be
  reached through directories that may be read and searched. The first pass has
  completed before any task exists: its list holds the root and the directories of the
  independent walk, each as often as there, and the result is collected from one task
  for each directory of that list. The scan returns exactly when every entry that
  \<^verbatim>\<open>rglob\<close> yields can be examined.
\<close>

theorem scan_lists_each_file_once:
  "(scan_files_threaded completion p (Some t) = Inr res \<and> path_exists (Some t)
      \<and> (\<forall>xs. mset (completion xs) = mset xs) \<and> wf_tree t \<and> no_dir_links (target t)
    \<longrightarrow> mset (scanned_files res) = mset (independent_walk p (target t))
        \<and> length (scanned_files res) = length (independent_walk p (target t))
        \<and> distinct (scanned_files res)
        \<and> set (scanned_files res) = (\<lambda>rel. p @ rel) ` reachable_files (target t)
        \<and> (\<exists>directories. first_pass (rglob p (target t)) [(p, t)] = Inr directories
              \<and> mset (map fst directories) = mset (p # independent_dirs p (target t))
              \<and> scanned_files res
                  = collect_files (completion (map scan_directory directories)) []))
   \<and> (path_exists (Some t) \<longrightarrow>
        ((\<exists>res. scan_files_threaded completion p (Some t) = Inr res) \<longleftrightarrow> passable (target t)))"
proof (intro conjI impI)
  assume h: "scan_files_threaded completion p (Some t) = Inr res \<and> path_exists (Some t)
      \<and> (\<forall>xs. mset (completion xs) = mset xs) \<and> wf_tree t \<and> no_dir_links (target t)"
  then have run: "scan_files_threaded completion p (Some t) = Inr res"
    and ex: "path_exists (Some t)" and perm: "\<forall>xs. mset (completion xs) = mset xs"
    and wf: "wf_tree (target t)" and nl: "no_dir_links (target t)"
    by (simp_all add: wf_target)
  let ?ds = "(p, t) # directories_in (rglob p (target t))"
  let ?fut = "map scan_directory ?ds"
  note pa = scan_returned(1)[OF ex run]
  note fp = scan_returned(2)[OF ex run]
  note af = scan_returned(3)[OF ex run]
  have "mset (collect_files (completion ?fut) []) = mset (concat (map task_files ?fut))"
    using perm mset_concat_map_cong[of "completion ?fut" ?fut task_files]
    by (simp add: collect_files_eq)
  also have "\<dots> = mset (independent_walk p (target t))"
    using walk_split(1)[OF pa nl, of p] by (simp add: scan_root_directory comp_def)
  finally have m: "mset (scanned_files res) = mset (independent_walk p (target t))"
    using af by simp
  show "mset (scanned_files res) = mset (independent_walk p (target t))" by (rule m)
  show "length (scanned_files res) = length (independent_walk p (target t))"
    using arg_cong[OF m, of size] by simp
  show "distinct (scanned_files res)"
    using mset_eq_imp_distinct_iff[OF m] walk_distinct(1)[OF wf, of p] by simp
  have "set (scanned_files res) = set (independent_walk p (target t))"
    using arg_cong[OF m, of set_mset] by simp
  then show "set (scanned_files res) = (\<lambda>rel. p @ rel) ` reachable_files (target t)"
    using walk_reachable(1)[OF wf, of p] by simp
  have dm: "mset (map fst ?ds) = mset (p # independent_dirs p (target t))"
    using dirs_split(1)[OF pa, of p] by simp
  from fp dm af
  show "\<exists>directories. first_pass (rglob p (target t)) [(p, t)] = Inr directories
              \<and> mset (map fst directories) = mset (p # independent_dirs p (target t))
              \<and> scanned_files res
                  = collect_files (completion (map scan_directory directories)) []"
    by blast
next
  assume "path_exists (Some t)"
  then show "(\<exists>res. scan_files_threaded completion p (Some t) = Inr res) \<longleftrightarrow> passable (target t)"
    by (rule scan_returns_iff)
qed

theorem scan_lists_each_file_once_witness:
  "path_exists (Some example_tree) \<and> wf_tree example_tree
   \<and> no_dir_links (target example_tree) \<and> passable (target example_tree)
   \<and> (\<exists>res. scan_files_threaded rev [''r''] (Some example_tree) = Inr res
         \<and> mset (scanned_files res)
             = mset [[''r'', ''a.jpg''], [''r'', ''latest''], [''r'', ''sub'', ''b.txt'']]
         \<and> length (scanned_files res) = 3
         \<and> distinct (scanned_files res))"
proof -
  have perm: "\<forall>xs::scan_future list. mset (rev xs) = mset xs" by simp
  have ex: "path_exists (Some example_tree)" by (simp add: path_exists_def example_tree_def)
  have wf: "wf_tree example_tree" by (simp add: example_tree_def)
  have nl: "no_dir_links (target example_tree)" by (simp add: example_tree_def)
  have pa: "passable (target example_tree)" by (simp add: example_tree_def)
  have w: "independent_walk [''r''] (target example_tree)
      = [[''r'', ''a.jpg''], [''r'', ''latest''], [''r'', ''sub'', ''b.txt'']]"
    by (simp add: example_tree_def joinpath_def)
  have "\<exists>res. scan_files_threaded rev [''r''] (Some example_tree) = Inr res"
    using scan_lists_each_file_once[of rev "[''r'']" example_tree] ex pa by blast
  then obtain res where run: "scan_files_threaded rev [''r''] (Some example_tree) = Inr res"
    by blast
  note th = scan_lists_each_file_once[of rev "[''r'']" example_tree res]
  from th run ex perm wf nl
  have m: "mset (scanned_files res) = mset (independent_walk [''r''] (target example_tree))"
    by blast
  from th run ex perm wf nl
  have l: "length (scanned_files res) = length (independent_walk [''r''] (target example_tree))"
    by blast
  from th run ex perm wf nl have d: "distinct (scanned_files res)" by blast
  from m l d w run have "scan_files_threaded rev [''r''] (Some example_tree) = Inr res
         \<and> mset (scanned_files res)
             = mset [[''r'', ''a.jpg''], [''r'', ''latest''], [''r'', ''sub'', ''b.txt'']]
         \<and> length (scanned_files res) = 3
         \<and> distinct (scanned_files res)" by simp
  with ex wf nl pa show ?thesis by blast
qed

text \<open>
  Claim C9 as stated fails: with a link \<^verbatim>\<open>r/L\<close> to the directory \<^verbatim>\<open>r/T\<close> the file
  \<^verbatim>\<open>r/T/f\<close> is listed twice, as \<^verbatim>\<open>r/T/f\<close> and as \<^verbatim>\<open>r/L/f\<close>, while \<^verbatim>\<open>r/T/s/g\<close> is
  listed once: the scan takes the link for one more directory to list and does not go
  below it. The count is 3, where a walk that does not follow links counts the 2 files
  and a walk that follows them counts 4 paths.
\<close>

theorem scan_lists_linked_file_twice:
  "scan_files_threaded (\<lambda>xs. xs) [''r''] (Some linked_tree)
     = Inr \<lparr>scanned_files = [[''r'', ''T'', ''f''], [''r'', ''L'', ''f''], [''r'', ''T'', ''s'', ''g'']],
            queued = [QDir [''r'', ''T''], QDir [''r'', ''L''],
                      QFile [''r'', ''T'', ''f''], QDir [''r'', ''T'', ''s''],
                      QFile [''r'', ''L'', ''f''], QDir [''r'', ''L'', ''s''],
                      QFile [''r'', ''T'', ''s'', ''g'']],
            printed = []\<rparr>
   \<and> independent_walk [''r''] linked_tree = [[''r'', ''T'', ''f''], [''r'', ''T'', ''s'', ''g'']]
   \<and> following_walk [''r''] linked_tree
       = [[''r'', ''T'', ''f''], [''r'', ''T'', ''s'', ''g''],
          [''r'', ''L'', ''f''], [''r'', ''L'', ''s'', ''g'']]
   \<and> path_exists (Some linked_tree) \<and> wf_tree linked_tree \<and> passable linked_tree"
  by (simp add: scan_files_threaded_def path_exists_def linked_tree_def examine_def
        joinpath_def scan_directory_def Let_def)
section \<open>Properties of the organizer\<close>

subsection \<open>Decimal numbering and the conflict loops\<close>

lemma digit_char_inj: "a < 10 \<Longrightarrow> b < 10 \<Longrightarrow> digit_char a = digit_char b \<Longrightarrow> a = b"
proof -
  assume a: "a < 10" and b: "b < 10" and e: "digit_char a = digit_char b"
  have d: "distinct ''0123456789''" by simp
  have l: "length ''0123456789'' = 10" by simp
  from a b e show ?thesis unfolding digit_char_def
    using nth_eq_iff_index_eq[OF d, of a b] l by simp
qed

lemma str_nat_small: "n < 10 \<Longrightarrow> str_nat n = [digit_char n]"
  by (subst str_nat.simps) simp

lemma str_nat_big: "\<not> n < 10 \<Longrightarrow> str_nat n = str_nat (n div 10) @ [digit_char (n mod 10)]"
  by (subst str_nat.simps) simp

lemma str_nat_nonempty: "str_nat n \<noteq> []"
  by (subst str_nat.simps) simp

lemma str_nat_length: "length (str_nat n) = 1 \<longleftrightarrow> n < 10"
proof (cases "n < 10")
  case True
  then show ?thesis by (simp add: str_nat_small)
next
  case False
  have "length (str_nat (n div 10)) \<noteq> 0" using str_nat_nonempty[of "n div 10"] by simp
  with False show ?thesis by (simp add: str_nat_big)
qed

lemma str_nat_inj: "str_nat n = str_nat m \<Longrightarrow> n = m"
proof (induction n arbitrary: m rule: str_nat.induct)
  case (1 n)
  show ?case
  proof (cases "n < 10")
    case True
    then have "length (str_nat n) = 1" using str_nat_length by blast
    with "1.prems" have m: "m < 10" using str_nat_length[of m] by simp
    from True m "1.prems" have "digit_char n = digit_char m" by (simp add: str_nat_small)
    with True m show ?thesis using digit_char_inj by blast
  next
    case False
    then have "length (str_nat n) \<noteq> 1" using str_nat_length by blast
    with "1.prems" have m: "\<not> m < 10" using str_nat_length[of m] by simp
    from False m "1.prems" have a: "str_nat (n div 10) = str_nat (m div 10)"
      and b: "digit_char (n mod 10) = digit_char (m mod 10)" by (simp_all add: str_nat_big)
    from "1.IH"[OF False a] have q: "n div 10 = m div 10" .
    from b have r: "n mod 10 = m mod 10" using digit_char_inj[of "n mod 10" "m mod 10"] by simp
    have "n = n div 10 * 10 + n mod 10" by (rule div_mult_mod_eq[symmetric])
    also have "\<dots> = m div 10 * 10 + m mod 10" using q r by (simp only:)
    also have "\<dots> = m" by (rule div_mult_mod_eq)
    finally show ?thesis .
  qed
qed

lemma numbered_path_inj:
  "joinpath d (numbered_name f j) = joinpath d (numbered_name f k) \<Longrightarrow> j = k"
  by (simp add: joinpath_def numbered_name_def str_nat_inj)

lemma exists_free_number:
  assumes fin: "finite (dom fs)"
  shows "\<exists>k\<ge>c. \<not> exists fs (joinpath d (numbered_name f k))"
proof (rule ccontr)
  assume "\<not> ?thesis"
  then have all: "\<And>k. c \<le> k \<Longrightarrow> joinpath d (numbered_name f k) \<in> dom fs"
    by (auto simp: exists_def)
  let ?g = "\<lambda>k. joinpath d (numbered_name f k)"
  have inj: "inj_on ?g {c..}" by (rule inj_onI) (rule numbered_path_inj)
  have "?g ` {c..} \<subseteq> dom fs" using all by auto
  with fin have "finite (?g ` {c..})" by (rule rev_finite_subset)
  from finite_imageD[OF this inj] have "finite {c..}" .
  then show False by (simp add: infinite_Ici)
qed

lemma category_loop_reaches:
  assumes "c \<le> k"
    and "\<forall>j. c \<le> j \<and> j < k \<longrightarrow> exists fs (joinpath d (numbered_name f j))"
    and "\<not> exists fs (joinpath d (numbered_name f k))"
  shows "category_conflict_loop fs d f (joinpath d (numbered_name f c)) (c + 1)
           = Some (joinpath d (numbered_name f k))"
  using assms
proof (induction "k - c" arbitrary: c)
  case 0
  then have "c = k" by simp
  with "0.prems"(3) show ?case by (subst category_conflict_loop.simps) simp
next
  case (Suc n)
  then have lt: "c < k" by simp
  with Suc.prems(2) have ex: "exists fs (joinpath d (numbered_name f c))" by simp
  have "category_conflict_loop fs d f (joinpath d (numbered_name f (c + 1))) (c + 1 + 1)
          = Some (joinpath d (numbered_name f k))"
  proof (rule Suc.hyps(1))
    show "n = k - (c + 1)" using Suc.hyps(2) by simp
    show "c + 1 \<le> k" using lt by simp
    show "\<forall>j. c + 1 \<le> j \<and> j < k \<longrightarrow> exists fs (joinpath d (numbered_name f j))"
      using Suc.prems(2) by simp
    show "\<not> exists fs (joinpath d (numbered_name f k))" by (rule Suc.prems(3))
  qed
  with ex show ?case by (subst category_conflict_loop.simps) simp
qed

lemma category_loop_total:
  assumes fin: "finite (dom fs)"
  shows "\<exists>new_path. category_conflict_loop fs d f np c = Some new_path
           \<and> \<not> exists fs new_path
           \<and> (if exists fs np
                then \<exists>k\<ge>c. new_path = joinpath d (numbered_name f k)
                       \<and> (\<forall>j. c \<le> j \<and> j < k \<longrightarrow> exists fs (joinpath d (numbered_name f j)))
                else new_path = np)"
proof (cases "exists fs np")
  case False
  then show ?thesis by (subst category_conflict_loop.simps) simp
next
  case True
  let ?free = "\<lambda>k. c \<le> k \<and> \<not> exists fs (joinpath d (numbered_name f k))"
  from exists_free_number[OF fin, of c d f] obtain k0 where k0: "?free k0" by blast
  define k where "k = (LEAST k. ?free k)"
  have fk: "?free k" unfolding k_def using k0 by (rule LeastI)
  have below: "\<forall>j. c \<le> j \<and> j < k \<longrightarrow> exists fs (joinpath d (numbered_name f j))"
  proof (intro allI impI)
    fix j assume j: "c \<le> j \<and> j < k"
    then have "\<not> ?free j" unfolding k_def using not_less_Least by blast
    with j show "exists fs (joinpath d (numbered_name f j))" by simp
  qed
  have "category_conflict_loop fs d f (joinpath d (numbered_name f c)) (c + 1)
          = Some (joinpath d (numbered_name f k))"
    using fk below by (intro category_loop_reaches) simp_all
  with True have "category_conflict_loop fs d f np c = Some (joinpath d (numbered_name f k))"
    by (subst category_conflict_loop.simps) simp
  with True fk below show ?thesis by auto
qed

lemma others_loop_free:
  "\<not> exists fs np \<Longrightarrow> others_conflict_loop fs d f np c = Some np"
  by (subst others_conflict_loop.simps) simp

lemma others_loop_returns_only_free:
  assumes "others_conflict_loop fs d f np c = Some y"
  shows "\<not> exists fs np"
  by (rule others_conflict_loop.raw_induct
        [where P = "\<lambda>fs d f np c y. \<not> exists fs np", OF _ assms])
     (auto split: if_splits)

lemma others_loop_diverges:
  "exists fs np \<Longrightarrow> others_conflict_loop fs d f np c = None"
  using others_loop_returns_only_free[of fs d f np c] by (cases "others_conflict_loop fs d f np c") auto

subsection \<open>Results of \<open>organize_file\<close> and the tally\<close>

lemma destination_in_category:
  "first_category categories (lower L (suffix_of (name f))) = Some category \<Longrightarrow>
     destination_in L categories fs root f = category_destination fs root category f"
  by (induction categories) (auto split: if_splits)

lemma destination_in_others:
  "first_category categories (lower L (suffix_of (name f))) = None \<Longrightarrow>
     destination_in L categories fs root f = others_destination L fs root f"
  by (induction categories) (auto split: if_splits)

lemma mkdir_keeps:
  assumes "mkdir_exist_ok fs d = Inr fs1"
  shows "fs1 d = Some Dir" and "\<And>q. exists fs q \<Longrightarrow> fs1 q = fs q"
    and "finite (dom fs) \<Longrightarrow> finite (dom fs1)"
  using assms
  by (auto simp: mkdir_exist_ok_def exists_def split: option.splits node.splits)

lemma move_free_destination:
  "\<not> exists fs dst \<Longrightarrow> move fs src dst = rename_or_copy fs src dst"
  by (simp add: move_def exists_def)

lemma move_returned:
  assumes "move fs1 src dst = (Returned, fs2)" "\<not> exists fs1 dst"
  shows "\<exists>c r. fs1 src = Some (File c r True) \<and> fs2 = (fs1(src := None))(dst \<mapsto> File c r True)"
  using assms
  by (auto simp: move_free_destination rename_or_copy_def split: option.splits node.splits if_splits)

lemma move_raised:
  assumes "move fs1 src dst = (Raised e, fs2)" "\<not> exists fs1 dst"
  shows "\<forall>q. q \<noteq> dst \<longrightarrow> fs2 q = fs1 q"
  using assms
  by (auto simp: move_free_destination rename_or_copy_def split: option.splits node.splits if_splits)

lemma rename_or_copy_finite:
  "finite (dom fs) \<Longrightarrow> finite (dom (snd (rename_or_copy fs src dst)))"
  by (auto simp: rename_or_copy_def split: option.splits node.splits)

lemma move_finite: "finite (dom fs) \<Longrightarrow> finite (dom (snd (move fs src dst)))"
  by (auto simp: move_def Let_def rename_or_copy_finite split: option.splits node.splits)

lemma finish_tag:
  "finish fs f d = (Inr (tag, info), fs') \<Longrightarrow>
     tag = ''success'' \<or> tag = ''error'' \<or> tag = ''skipped''"
  by (auto simp: finish_def split: decision.splits prod.splits outcome.splits)

lemma finish_finite: "finite (dom fs) \<Longrightarrow> finite (dom (snd (finish fs f d)))"
proof (cases d)
  case (Moves new_path info)
  assume "finite (dom fs)"
  from move_finite[OF this, of f new_path] Moves show ?thesis
    by (cases "move fs f new_path") (auto simp: finish_def split: outcome.splits)
qed (simp_all add: finish_def)

lemma organize_file_tag:
  assumes "organize_file L categories root fs f = Some (Inr (tag, info), fs')"
  shows "tag = ''success'' \<or> tag = ''error'' \<or> tag = ''skipped''"
  using assms finish_tag
  by (auto simp: organize_file_def split: option.splits prod.splits)

lemma run_tasks_results:
  "run_tasks L categories root fs files = Some (rs, fs') \<Longrightarrow>
     length rs = length files \<and> list_all well_tagged rs"
proof (induction files arbitrary: fs rs)
  case Nil
  then show ?case by simp
next
  case (Cons f files)
  from Cons.prems obtain r fs1 rs1 where
    o: "organize_file L categories root fs f = Some (r, fs1)"
    and t: "run_tasks L categories root fs1 files = Some (rs1, fs')"
    and e: "rs = r # rs1"
    by (auto split: option.splits)
  have "well_tagged r"
  proof (cases r)
    case (Inl exc)
    then show ?thesis by simp
  next
    case (Inr p)
    obtain tag info where "p = (tag, info)" by (cases p)
    with Inr o organize_file_tag[of L categories root fs f tag info fs1] show ?thesis by simp
  qed
  with Cons.IH[OF t] e show ?case by simp
qed

lemma tally_counts:
  "list_all well_tagged rs \<Longrightarrow> tally rs (oc, ec) = (oc', ec') \<Longrightarrow>
     oc' + ec' + length (filter is_skipped rs) = oc + ec + length rs"
proof (induction rs "(oc, ec)" arbitrary: oc ec rule: tally.induct)
  case (1 organized_count error_count)
  then show ?case by simp
next
  case (2 result info rest organized_count error_count)
  then show ?case by (auto split: if_splits)
next
  case (3 exc rest organized_count error_count)
  then show ?case by auto
qed

lemma category_destination_total:
  assumes fin: "finite (dom fs)"
  shows "\<exists>d fs1. category_destination fs root category f = Some (d, fs1) \<and> finite (dom fs1)"
proof (cases "mkdir_exist_ok fs (joinpath root category)")
  case (Inl e)
  with fin show ?thesis by (simp add: category_destination_def Let_def)
next
  case (Inr fs1)
  have fin1: "finite (dom fs1)" using mkdir_keeps(3)[OF Inr fin] .
  from category_loop_total[OF fin1, of "joinpath root category" f
      "joinpath (joinpath root category) (name f)" 1]
  obtain new_path where l: "category_conflict_loop fs1 (joinpath root category) f
      (joinpath (joinpath root category) (name f)) 1 = Some new_path" by blast
  with Inr fin1 show ?thesis by (simp add: category_destination_def Let_def)
qed

lemma organize_file_total:
  assumes fin: "finite (dom fs)"
    and ok: "first_category categories (lower L (suffix_of (name f))) \<noteq> None
             \<or> lower L (suffix_of (name f)) = []"
  shows "\<exists>r fs'. organize_file L categories root fs f = Some (r, fs') \<and> finite (dom fs')"
proof -
  have "\<exists>d fs1. destination_in L categories fs root f = Some (d, fs1) \<and> finite (dom fs1)"
  proof (cases "first_category categories (lower L (suffix_of (name f)))")
    case (Some category)
    then show ?thesis
      using category_destination_total[OF fin, of root category f]
      by (simp add: destination_in_category)
  next
    case None
    with ok have "lower L (suffix_of (name f)) = []" by simp
    with None fin show ?thesis
      by (simp add: destination_in_others others_destination_def)
  qed
  then obtain d fs1 where d: "destination_in L categories fs root f = Some (d, fs1)"
    and f1: "finite (dom fs1)" by blast
  from finish_finite[OF f1, of f d] d show ?thesis
    by (cases "finish fs1 f d") (simp add: organize_file_def)
qed

lemma run_tasks_total:
  assumes "finite (dom fs)"
    and "\<forall>f\<in>set files. first_category categories (lower L (suffix_of (name f))) \<noteq> None
             \<or> lower L (suffix_of (name f)) = []"
  shows "\<exists>rs fs'. run_tasks L categories root fs files = Some (rs, fs')"
  using assms
proof (induction files arbitrary: fs)
  case Nil
  then show ?case by simp
next
  case (Cons f files)
  from Cons.prems(2) have okf: "first_category categories (lower L (suffix_of (name f))) \<noteq> None
             \<or> lower L (suffix_of (name f)) = []" by simp
  from organize_file_total[OF Cons.prems(1) okf, of root] obtain r fs1 where
    o: "organize_file L categories root fs f = Some (r, fs1)" and f1: "finite (dom fs1)" by blast
  from Cons.prems(2) have rest: "\<forall>f\<in>set files.
      first_category categories (lower L (suffix_of (name f))) \<noteq> None
      \<or> lower L (suffix_of (name f)) = []" by simp
  from Cons.IH[OF f1 rest] obtain rs fs' where
    "run_tasks L categories root fs1 files = Some (rs, fs')" by blast
  with o show ?case by simp
qed

lemmas path_simps = name_def joinpath_def parent_def suffix_of_def stem_of_def
  numbered_name_def digit_char_def str_nat.simps exists_def

lemmas lower_simps = lower_ascii is_ascii_def ascii_lower_def ascii_lower_char_def

text \<open>
  Claim C1, as the code has it. Whenever an organize run over the scanned list ends, the
  report's total is the number of scanned files, every file has exactly one result (an
  exception, or a pair tagged success, error or skipped), and the two counters the run
  keeps, successes and errors, together with the number of skipped results add up to the
  total. The run keeps and reports no counter of skipped files. A run ends whenever the
  store is finite and every file either has a category or has no extension.
\<close>

theorem organize_tally:
  "(smart_organize_threaded L categories root fs all_files True = Some (Some rep, fs') \<longrightarrow>
      report_total rep = length all_files
      \<and> (\<exists>rs. run_tasks L categories root fs all_files = Some (rs, fs')
            \<and> length rs = length all_files
            \<and> list_all well_tagged rs
            \<and> report_organized rep + report_errors rep + length (filter is_skipped rs)
                = report_total rep))
   \<and> (finite (dom fs) \<and> all_files \<noteq> []
        \<and> (\<forall>f\<in>set all_files. first_category categories (lower L (suffix_of (name f))) \<noteq> None
                                 \<or> lower L (suffix_of (name f)) = [])
      \<longrightarrow> (\<exists>rep fs'. smart_organize_threaded L categories root fs all_files True
                         = Some (Some rep, fs')))"
proof (intro conjI impI)
  assume a: "smart_organize_threaded L categories root fs all_files True = Some (Some rep, fs')"
  then obtain rs oc ec where
    r: "run_tasks L categories root fs all_files = Some (rs, fs')"
    and t: "tally rs (0, 0) = (oc, ec)"
    and rep: "rep = \<lparr>report_total = length all_files, report_organized = oc, report_errors = ec\<rparr>"
    by (auto simp: smart_organize_threaded_def split: if_splits option.splits prod.splits)
  from run_tasks_results[OF r] have l: "length rs = length all_files"
    and w: "list_all well_tagged rs" by simp_all
  from tally_counts[OF w t] l have
    s: "oc + ec + length (filter is_skipped rs) = length all_files" by simp
  from rep show "report_total rep = length all_files" by simp
  from r l w s rep show "\<exists>rs. run_tasks L categories root fs all_files = Some (rs, fs')
            \<and> length rs = length all_files
            \<and> list_all well_tagged rs
            \<and> report_organized rep + report_errors rep + length (filter is_skipped rs)
                = report_total rep" by simp
next
  assume h: "finite (dom fs) \<and> all_files \<noteq> []
        \<and> (\<forall>f\<in>set all_files. first_category categories (lower L (suffix_of (name f))) \<noteq> None
                                 \<or> lower L (suffix_of (name f)) = [])"
  then obtain rs fs' where "run_tasks L categories root fs all_files = Some (rs, fs')"
    using run_tasks_total[of fs all_files categories L root] by blast
  with h show "\<exists>rep fs'. smart_organize_threaded L categories root fs all_files True
                         = Some (Some rep, fs')"
    by (cases "tally rs (0, 0)") (simp add: smart_organize_threaded_def)
qed

theorem organize_tally_witness:
  "\<forall>L. finite (dom example_store)
   \<and> (\<exists>fs'. smart_organize_threaded L file_categories [''r''] example_store
               [[''r'', ''a.jpg''], [''r'', ''README''], [''r'', ''b.pdf'']] True
             = Some (Some \<lparr>report_total = 3, report_organized = 1, report_errors = 1\<rparr>, fs')
          \<and> (\<exists>rs. run_tasks L file_categories [''r''] example_store
                      [[''r'', ''a.jpg''], [''r'', ''README''], [''r'', ''b.pdf'']] = Some (rs, fs')
                 \<and> length rs = 3 \<and> length (filter is_skipped rs) = 1))"
proof
  fix L
  let ?files = "[[''r'', ''a.jpg''], [''r'', ''README''], [''r'', ''b.pdf'']]"
  let ?rep = "\<lparr>report_total = 3, report_organized = 1, report_errors = 1\<rparr>"
  note th = organize_tally[of L file_categories "[''r'']" example_store ?files]
  have fin: "finite (dom example_store)" by (simp add: example_store_def)
  have ok: "\<forall>f\<in>set ?files. first_category file_categories (lower L (suffix_of (name f))) \<noteq> None
                \<or> lower L (suffix_of (name f)) = []"
    by (simp add: file_categories_def path_simps lower_simps)
  from th fin ok have "\<exists>rep fs'. smart_organize_threaded L file_categories [''r''] example_store
      ?files True = Some (Some rep, fs')" by blast
  have "\<exists>fs'. smart_organize_threaded L file_categories [''r''] example_store ?files True
      = Some (Some ?rep, fs')"
    by (simp add: smart_organize_threaded_def organize_file_def file_categories_def
        example_store_def category_destination_def others_destination_def finish_def
        mkdir_exist_ok_def move_def rename_or_copy_def
        category_conflict_loop.simps path_simps lower_simps)
  then obtain fs' where e: "smart_organize_threaded L file_categories [''r''] example_store
      ?files True = Some (Some ?rep, fs')" by blast
  from th[of ?rep fs'] e obtain rs where
    "run_tasks L file_categories [''r''] example_store ?files = Some (rs, fs')"
    "length rs = length ?files"
    "report_organized ?rep + report_errors ?rep + length (filter is_skipped rs) = report_total ?rep"
    by blast
  then have "run_tasks L file_categories [''r''] example_store ?files = Some (rs, fs')
      \<and> length rs = 3 \<and> length (filter is_skipped rs) = 1" by simp
  with e fin show "finite (dom example_store)
   \<and> (\<exists>fs'. smart_organize_threaded L file_categories [''r''] example_store ?files True
             = Some (Some ?rep, fs')
          \<and> (\<exists>rs. run_tasks L file_categories [''r''] example_store ?files = Some (rs, fs')
                 \<and> length rs = 3 \<and> length (filter is_skipped rs) = 1))" by blast
qed

text \<open>
  Claim C1 as stated fails: a directory holding one file without extension gives a
  report with total 1, no success and no error, and the report has no further count.
\<close>

theorem organize_report_omits_skipped:
  "\<forall>L. smart_organize_threaded L file_categories [''r''] readme_store [[''r'', ''README'']] True
     = Some (Some \<lparr>report_total = 1, report_organized = 0, report_errors = 0\<rparr>, readme_store)"
  by (simp add: smart_organize_threaded_def organize_file_def file_categories_def
        others_destination_def finish_def path_simps lower_simps)

subsection \<open>The Others branch\<close>

text \<open>
  On a finite store a call of \<open>organize_file\<close> fails to return in one situation only:
  no category lists the file's suffix, the suffix is not empty, and the file's name is
  taken in \<^verbatim>\<open>Others\<close>.
\<close>

lemma organize_file_diverges_iff:
  assumes fin: "finite (dom fs)"
  shows "organize_file L categories root fs f = None \<longleftrightarrow>
     first_category categories (lower L (suffix_of (name f))) = None
     \<and> lower L (suffix_of (name f)) \<noteq> []
     \<and> (\<exists>fs1. mkdir_exist_ok fs (joinpath root ''Others'') = Inr fs1
            \<and> exists fs1 (joinpath (joinpath root ''Others'') (name f)))"
proof -
  have o: "organize_file L categories root fs f = None
      \<longleftrightarrow> destination_in L categories fs root f = None"
    by (auto simp: organize_file_def split: option.splits)
  show ?thesis
  proof (cases "first_category categories (lower L (suffix_of (name f)))")
    case (Some category)
    with category_destination_total[OF fin, of root category f] show ?thesis
      by (auto simp: o destination_in_category)
  next
    case None
    have eq: "destination_in L categories fs root f = others_destination L fs root f"
      using None by (simp add: destination_in_others)
    show ?thesis
    proof (cases "lower L (suffix_of (name f)) = []")
      case True
      with None eq show ?thesis by (simp add: o others_destination_def)
    next
      case False
      show ?thesis
      proof (cases "mkdir_exist_ok fs (joinpath root ''Others'')")
        case (Inl e)
        with None False eq show ?thesis by (simp add: o others_destination_def Let_def)
      next
        case (Inr fs1)
        show ?thesis
        proof (cases "exists fs1 (joinpath (joinpath root ''Others'') (name f))")
          case True
          with None False eq Inr show ?thesis
            by (simp add: o others_destination_def Let_def others_loop_diverges)
        next
          case ne: False
          with None False eq Inr show ?thesis
            by (simp add: o others_destination_def Let_def others_loop_free)
        qed
      qed
    qed
  qed
qed

text \<open>
  Claim C2 at its failing input: \<^verbatim>\<open>r/x.xyz\<close> has no category and \<^verbatim>\<open>r/Others/x.xyz\<close>
  exists. The call does not return: the loop tests the same \<open>new_path\<close> for ever, and the
  file is neither moved to \<^verbatim>\<open>Others/x_1.xyz\<close> nor reported.
\<close>

theorem others_branch_never_renames:
  "organize_file L file_categories [''r''] others_conflict_store [''r'', ''x.xyz''] = None"
  by (simp add: organize_file_def file_categories_def others_conflict_store_def
        others_destination_def mkdir_exist_ok_def others_loop_diverges path_simps lower_simps)

text \<open>
  Claim C3 at its failing input: the scanned files of the same directory, \<^verbatim>\<open>r/x.xyz\<close> and
  \<^verbatim>\<open>r/Others/x.xyz\<close>. Neither call returns: for the first the name is taken in
  \<^verbatim>\<open>Others\<close>, for the second the destination is the file itself. The run does not end
  and reports nothing.
\<close>

theorem organize_run_does_not_end:
  "organize_file L file_categories [''r''] others_conflict_store [''r'', ''Others'', ''x.xyz''] = None
   \<and> smart_organize_threaded L file_categories [''r''] others_conflict_store
         [[''r'', ''x.xyz''], [''r'', ''Others'', ''x.xyz'']] True = None"
  by (simp add: smart_organize_threaded_def organize_file_def file_categories_def
        others_conflict_store_def others_destination_def mkdir_exist_ok_def
        others_loop_diverges path_simps lower_simps)

subsection \<open>Categorized files\<close>

text \<open>
  Two steps of one task with no step of another task between them are a call of
  \<open>organize_file\<close>; and run one after the other the two tasks of the same-name store
  keep both files.
\<close>

lemma uninterrupted_steps:
  "run_schedule L categories root [0, 0] ([Submitted f], fs)
     = (case organize_file L categories root fs f of
          None \<Rightarrow> None
        | Some (r, fs') \<Rightarrow> Some ([Done r], fs'))"
  by (auto simp: step_def organize_file_def split: option.splits prod.splits)

lemma sequential_moves_keep_both:
  "\<exists>fs'. run_tasks L file_categories [''r''] same_name_store
              [[''r'', ''a'', ''x.jpg''], [''r'', ''b'', ''x.jpg'']]
            = Some ([Inr (''success'', ''Images''), Inr (''success'', ''Images'')], fs')
        \<and> fs' [''r'', ''Images'', ''x.jpg''] = Some (File [1] True True)
        \<and> fs' [''r'', ''Images'', ''x_1.jpg''] = Some (File [2] True True)"
  by (simp add: organize_file_def file_categories_def same_name_store_def
        category_destination_def finish_def mkdir_exist_ok_def move_def rename_or_copy_def
        category_conflict_loop.simps path_simps lower_simps)

text \<open>
  Claim C4, as the code has it: for a call that no other task of the pool interrupts.
  Let the file store be finite, let the file's lower-cased suffix be listed by a
  category, and let the category directory exist or be created. Then \<open>organize_file\<close>
  returns, and the destination it chose did not exist: it is the file's own name in the
  category directory when that is free, and otherwise the numbered name
  \<^verbatim>\<open>stem_k suffix\<close> for the first \<open>k \<ge> 1\<close> that is free, all smaller numbers being taken.
  When the move returns the file is at the destination and gone from its old place;
  when it raises the result is an error and nothing but the destination, where a copy
  of the file may be left, has changed. Either way every other entry that existed
  before is still there, unchanged: nothing is overwritten.
\<close>

theorem categorized_move_resolves_conflicts:
  assumes fin: "finite (dom fs)"
    and cat: "first_category categories (lower L (suffix_of (name file_path))) = Some category"
    and mk: "mkdir_exist_ok fs (joinpath root category) = Inr fs1"
  shows "\<exists>new_path r fs2.
           destination_in L categories fs root file_path = Some (Moves new_path category, fs1)
         \<and> organize_file L categories root fs file_path = Some (r, fs2)
         \<and> \<not> exists fs1 new_path
         \<and> (if exists fs1 (joinpath (joinpath root category) (name file_path))
            then \<exists>k\<ge>1. new_path = joinpath (joinpath root category) (numbered_name file_path k)
                   \<and> (\<forall>j. 1 \<le> j \<and> j < k \<longrightarrow>
                         exists fs1 (joinpath (joinpath root category) (numbered_name file_path j)))
            else new_path = joinpath (joinpath root category) (name file_path))
         \<and> (case move fs1 file_path new_path of
              (Returned, moved) \<Rightarrow> r = Inr (''success'', category) \<and> fs2 = moved
                           \<and> fs2 new_path = fs file_path \<and> fs2 file_path = None
            | (Raised e, left) \<Rightarrow> r = Inr (''error'', str_exn e) \<and> fs2 = left
                           \<and> (\<forall>q. q \<noteq> new_path \<longrightarrow> fs2 q = fs1 q))
         \<and> (\<forall>q. q \<noteq> file_path \<and> exists fs q \<longrightarrow> fs2 q = fs q)"
proof -
  let ?dir = "joinpath root category"
  have fin1: "finite (dom fs1)" using mkdir_keeps(3)[OF mk fin] .
  have keep1: "\<And>q. exists fs q \<Longrightarrow> fs1 q = fs q" using mkdir_keeps(2)[OF mk] .
  from category_loop_total[OF fin1, of ?dir file_path "joinpath ?dir (name file_path)" 1]
  obtain new_path where
    l: "category_conflict_loop fs1 ?dir file_path (joinpath ?dir (name file_path)) 1 = Some new_path"
    and free: "\<not> exists fs1 new_path"
    and least: "if exists fs1 (joinpath ?dir (name file_path))
            then \<exists>k\<ge>1. new_path = joinpath ?dir (numbered_name file_path k)
                   \<and> (\<forall>j. 1 \<le> j \<and> j < k \<longrightarrow> exists fs1 (joinpath ?dir (numbered_name file_path j)))
            else new_path = joinpath ?dir (name file_path)"
    by blast
  have dest: "destination_in L categories fs root file_path = Some (Moves new_path category, fs1)"
    using cat mk l by (simp add: destination_in_category category_destination_def Let_def)
  then have of_eq: "organize_file L categories root fs file_path
      = Some (finish fs1 file_path (Moves new_path category))"
    by (simp add: organize_file_def)
  obtain oc after where mv: "move fs1 file_path new_path = (oc, after)"
    by (cases "move fs1 file_path new_path")
  show ?thesis
  proof (cases oc)
    case (Raised e)
    with mv have m: "move fs1 file_path new_path = (Raised e, after)" by simp
    have a: "organize_file L categories root fs file_path = Some (Inr (''error'', str_exn e), after)"
      using of_eq m by (simp add: finish_def)
    have b: "\<forall>q. q \<noteq> new_path \<longrightarrow> after q = fs1 q" using move_raised[OF m free] .
    have d: "\<forall>q. q \<noteq> file_path \<and> exists fs q \<longrightarrow> after q = fs q"
    proof (intro allI impI)
      fix q assume q: "q \<noteq> file_path \<and> exists fs q"
      then have e1: "fs1 q = fs q" using keep1 by simp
      with q free have "q \<noteq> new_path" by (auto simp: exists_def)
      with b e1 show "after q = fs q" by simp
    qed
    from dest a b d free least m show ?thesis by auto
  next
    case Returned
    with mv have m: "move fs1 file_path new_path = (Returned, after)" by simp
    from move_returned[OF m free] obtain c r where
      src: "fs1 file_path = Some (File c r True)"
      and af: "after = (fs1(file_path := None))(new_path \<mapsto> File c r True)" by blast
    have ne: "new_path \<noteq> file_path" using free src by (auto simp: exists_def)
    have src0: "fs file_path = Some (File c r True)"
    proof (cases "exists fs file_path")
      case True
      with keep1 src show ?thesis by simp
    next
      case False
      then have "fs file_path = None" by (simp add: exists_def)
      with mk src show ?thesis
        by (auto simp: mkdir_exist_ok_def split: option.splits node.splits if_splits)
    qed
    have a: "organize_file L categories root fs file_path = Some (Inr (''success'', category), after)"
      using of_eq m by (simp add: finish_def)
    have b: "after new_path = fs file_path" using af src0 by simp
    have c: "after file_path = None" using af ne by simp
    have d: "\<forall>q. q \<noteq> file_path \<and> exists fs q \<longrightarrow> after q = fs q"
    proof (intro allI impI)
      fix q assume q: "q \<noteq> file_path \<and> exists fs q"
      then have "fs1 q = fs q" using keep1 by simp
      moreover from q this free have "q \<noteq> new_path" by (auto simp: exists_def)
      ultimately show "after q = fs q" using af q by simp
    qed
    from dest a b c d free least m show ?thesis by auto
  qed
qed

theorem categorized_move_resolves_conflicts_witness:
  "\<forall>L. finite (dom example_store)
   \<and> first_category file_categories (lower L (suffix_of (name [''r'', ''a.jpg'']))) = Some ''Images''
   \<and> mkdir_exist_ok example_store (joinpath [''r''] ''Images'') = Inr example_store
   \<and> (\<exists>fs2. organize_file L file_categories [''r''] example_store [''r'', ''a.jpg'']
               = Some (Inr (''success'', ''Images''), fs2)
          \<and> fs2 [''r'', ''Images'', ''a_2.jpg''] = Some (File [1, 2] True True)
          \<and> fs2 [''r'', ''a.jpg''] = None
          \<and> fs2 [''r'', ''Images'', ''a.jpg''] = Some (File [] True True)
          \<and> fs2 [''r'', ''Images'', ''a_1.jpg''] = Some (File [] True True))"
proof
  fix L
  have fin: "finite (dom example_store)" by (simp add: example_store_def)
  have cat: "first_category file_categories (lower L (suffix_of (name [''r'', ''a.jpg''])))
      = Some ''Images''" by (simp add: file_categories_def path_simps lower_simps)
  have mk: "mkdir_exist_ok example_store (joinpath [''r''] ''Images'') = Inr example_store"
    by (simp add: mkdir_exist_ok_def example_store_def path_simps)
  have "\<exists>fs2. organize_file L file_categories [''r''] example_store [''r'', ''a.jpg'']
               = Some (Inr (''success'', ''Images''), fs2)
          \<and> fs2 [''r'', ''Images'', ''a_2.jpg''] = Some (File [1, 2] True True)
          \<and> fs2 [''r'', ''a.jpg''] = None"
    by (simp add: organize_file_def file_categories_def example_store_def
        category_destination_def finish_def mkdir_exist_ok_def move_def rename_or_copy_def
        category_conflict_loop.simps path_simps lower_simps)
  then obtain fs2 where
    e: "organize_file L file_categories [''r''] example_store [''r'', ''a.jpg'']
          = Some (Inr (''success'', ''Images''), fs2)"
    and n: "fs2 [''r'', ''Images'', ''a_2.jpg''] = Some (File [1, 2] True True)"
    and g: "fs2 [''r'', ''a.jpg''] = None" by blast
  from categorized_move_resolves_conflicts[OF fin cat mk] e
  have keep: "\<forall>q. q \<noteq> [''r'', ''a.jpg''] \<and> exists example_store q \<longrightarrow> fs2 q = example_store q"
    by auto
  have "fs2 [''r'', ''Images'', ''a.jpg''] = example_store [''r'', ''Images'', ''a.jpg'']"
    using keep by (simp add: exists_def example_store_def)
  then have k1: "fs2 [''r'', ''Images'', ''a.jpg''] = Some (File [] True True)"
    by (simp add: example_store_def)
  have "fs2 [''r'', ''Images'', ''a_1.jpg''] = example_store [''r'', ''Images'', ''a_1.jpg'']"
    using keep by (simp add: exists_def example_store_def)
  then have k2: "fs2 [''r'', ''Images'', ''a_1.jpg''] = Some (File [] True True)"
    by (simp add: example_store_def)
  from fin cat mk e n g k1 k2 show "finite (dom example_store)
   \<and> first_category file_categories (lower L (suffix_of (name [''r'', ''a.jpg'']))) = Some ''Images''
   \<and> mkdir_exist_ok example_store (joinpath [''r''] ''Images'') = Inr example_store
   \<and> (\<exists>fs2. organize_file L file_categories [''r''] example_store [''r'', ''a.jpg'']
               = Some (Inr (''success'', ''Images''), fs2)
          \<and> fs2 [''r'', ''Images'', ''a_2.jpg''] = Some (File [1, 2] True True)
          \<and> fs2 [''r'', ''a.jpg''] = None
          \<and> fs2 [''r'', ''Images'', ''a.jpg''] = Some (File [] True True)
          \<and> fs2 [''r'', ''Images'', ''a_1.jpg''] = Some (File [] True True))" by blast
qed

text \<open>
  Claim C4 as stated fails: the existence check and the move are two steps with no lock
  between them, and the pool runs the tasks of two files at once. With \<^verbatim>\<open>r/a/x.jpg\<close>
  and \<^verbatim>\<open>r/b/x.jpg\<close>, when both tasks choose their destination before either moves,
  both choose \<^verbatim>\<open>r/Images/x.jpg\<close>, both moves return and both tasks report success;
  the second move replaces the file the first one put there, no \<^verbatim>\<open>x_1.jpg\<close> is made,
  and the content of the first file is nowhere in the store.
\<close>

theorem concurrent_moves_overwrite:
  "\<forall>L. \<exists>fs'. run_schedule L file_categories [''r''] [0, 1, 0, 1]
                ([Submitted [''r'', ''a'', ''x.jpg''], Submitted [''r'', ''b'', ''x.jpg'']],
                 same_name_store)
              = Some ([Done (Inr (''success'', ''Images'')), Done (Inr (''success'', ''Images''))],
                      fs')
          \<and> fs' [''r'', ''Images'', ''x.jpg''] = Some (File [2] True True)
          \<and> fs' [''r'', ''Images'', ''x_1.jpg''] = None
          \<and> fs' [''r'', ''a'', ''x.jpg''] = None
          \<and> fs' [''r'', ''b'', ''x.jpg''] = None
          \<and> (\<forall>q. fs' q \<noteq> Some (File [1] True True))"
  by (simp add: step_def file_categories_def same_name_store_def
        category_destination_def finish_def mkdir_exist_ok_def move_def rename_or_copy_def
        category_conflict_loop.simps path_simps lower_simps)

section \<open>Properties of the duplicate finder\<close>

subsection \<open>Grouping by digest\<close>

lemma append_file_map_of:
  "map_of (append_file g h p) k =
     (if k = h then Some ((case map_of g h of None \<Rightarrow> [] | Some ps \<Rightarrow> ps) @ [p])
      else map_of g k)"
  by (induction g h p rule: append_file.induct) auto

lemma append_file_keys:
  "set (map fst (append_file g h p)) = insert h (set (map fst g))"
  by (induction g h p rule: append_file.induct) auto

lemma append_file_distinct:
  "distinct (map fst g) \<Longrightarrow> distinct (map fst (append_file g h p))"
proof (induction g h p rule: append_file.induct)
  case (1 file_hash filepath)
  then show ?case by simp
next
  case (2 h files rest file_hash filepath)
  show ?case
  proof (cases "h = file_hash")
    case True
    with 2 show ?thesis by simp
  next
    case False
    from 2 False have d: "distinct (map fst (append_file rest file_hash filepath))" by simp
    from "2.prems" have "h \<notin> set (map fst rest)" by simp
    with False have "h \<notin> set (map fst (append_file rest file_hash filepath))"
      unfolding append_file_keys by simp
    with d False show ?thesis by simp
  qed
qed

lemma append_file_members:
  "mset (concat (map snd (append_file g h p))) = mset (concat (map snd g)) + {#p#}"
  by (induction g h p rule: append_file.induct) auto

lemma hash_loop_distinct:
  "distinct (map fst g) \<Longrightarrow> distinct (map fst (hash_loop rs g))"
  by (induction rs g rule: hash_loop.induct) (auto simp: append_file_distinct split: option.splits)

lemma hash_loop_map_of:
  "map_of (hash_loop rs g) k =
     (if files_hashed_to k rs = [] then map_of g k
      else Some ((case map_of g k of None \<Rightarrow> [] | Some ps \<Rightarrow> ps) @ files_hashed_to k rs))"
proof (induction rs g rule: hash_loop.induct)
  case (1 g)
  then show ?case by (simp add: files_hashed_to_def)
next
  case (2 filepath file_hash rest g)
  show ?case
  proof (cases file_hash)
    case None
    with 2 show ?thesis by (simp add: files_hashed_to_def)
  next
    case (Some h)
    with 2 have "map_of (hash_loop ((filepath, file_hash) # rest) g) k =
      (if files_hashed_to k rest = [] then map_of (append_file g h filepath) k
       else Some ((case map_of (append_file g h filepath) k of None \<Rightarrow> [] | Some ps \<Rightarrow> ps)
                  @ files_hashed_to k rest))" by simp
    then show ?thesis using Some
      by (simp add: append_file_map_of files_hashed_to_def)
  qed
qed

lemma hash_loop_members:
  "mset (concat (map snd (hash_loop rs g)))
     = mset (concat (map snd g)) + mset (map fst (filter (\<lambda>x. snd x \<noteq> None) rs))"
  by (induction rs g rule: hash_loop.induct) (auto simp: append_file_members split: option.splits)

lemma hash_loop_ignores_failures:
  "hash_loop rs g = hash_loop (filter (\<lambda>x. snd x \<noteq> None) rs) g"
  by (induction rs g rule: hash_loop.induct) (auto split: option.splits)

lemma group_iff:
  "(h, files) \<in> set (hash_loop rs []) \<longleftrightarrow> files = files_hashed_to h rs \<and> files \<noteq> []"
proof -
  have d: "distinct (map fst (hash_loop rs []))" by (rule hash_loop_distinct) simp
  have "(h, files) \<in> set (hash_loop rs []) \<longleftrightarrow> map_of (hash_loop rs []) h = Some files"
    using d by simp
  also have "\<dots> \<longleftrightarrow> files = files_hashed_to h rs \<and> files \<noteq> []"
    by (auto simp: hash_loop_map_of)
  finally show ?thesis .
qed

lemma pigeonhole_digest:
  fixes f :: "nat \<Rightarrow> digest"
  shows "\<exists>i j. i \<noteq> j \<and> f i = f j"
proof (rule ccontr)
  assume "\<not> ?thesis"
  then have "inj f" by (auto simp: inj_def)
  moreover have "finite (range f)" by simp
  ultimately have "finite (UNIV :: nat set)" by (rule finite_imageD[rotated])
  then show False by simp
qed

lemma get_file_hash_fst: "fst (get_file_hash md5 fs p) = p"
  by (simp add: get_file_hash_def split: option.splits node.splits)

lemma get_file_hash_none: "snd (get_file_hash md5 fs p) = None \<longleftrightarrow> \<not> readable_file fs p"
  by (simp add: get_file_hash_def readable_file_def split: option.splits node.splits)

lemma get_file_hash_some:
  "fs p = Some (File c True m) \<Longrightarrow> get_file_hash md5 fs p = (p, Some (md5 c))"
  by (simp add: get_file_hash_def)

lemma files_hashed_to_member:
  "p \<in> set (files_hashed_to h rs) \<longleftrightarrow> (p, Some h) \<in> set rs"
  by (induction rs) (auto simp: files_hashed_to_def)

lemma hashed_member_iff:
  assumes perm: "\<forall>xs. mset (completion xs) = mset xs"
  shows "p \<in> set (files_hashed_to h (completion (map (get_file_hash md5 fs) all_files)))
     \<longleftrightarrow> p \<in> set all_files \<and> snd (get_file_hash md5 fs p) = Some h"
proof -
  have s: "set (completion (map (get_file_hash md5 fs) all_files))
      = set (map (get_file_hash md5 fs) all_files)"
    using perm by (metis set_mset_mset)
  have "p \<in> set (files_hashed_to h (completion (map (get_file_hash md5 fs) all_files)))
      \<longleftrightarrow> (p, Some h) \<in> set (completion (map (get_file_hash md5 fs) all_files))"
    by (rule files_hashed_to_member)
  also have "\<dots> \<longleftrightarrow> (p, Some h) \<in> set (map (get_file_hash md5 fs) all_files)"
    by (simp only: s)
  also have "\<dots> \<longleftrightarrow> p \<in> set all_files \<and> snd (get_file_hash md5 fs p) = Some h"
  proof
    assume "(p, Some h) \<in> set (map (get_file_hash md5 fs) all_files)"
    then obtain x where x: "x \<in> set all_files" "get_file_hash md5 fs x = (p, Some h)" by auto
    from x(2) get_file_hash_fst[of md5 fs x] have "x = p" by simp
    with x show "p \<in> set all_files \<and> snd (get_file_hash md5 fs p) = Some h" by simp
  next
    assume a: "p \<in> set all_files \<and> snd (get_file_hash md5 fs p) = Some h"
    then have "get_file_hash md5 fs p = (p, Some h)"
      using get_file_hash_fst[of md5 fs p] by (cases "get_file_hash md5 fs p") simp
    with a show "(p, Some h) \<in> set (map (get_file_hash md5 fs) all_files)" by force
  qed
  finally show ?thesis .
qed

lemma two_members_length:
  assumes "p \<in> set xs" "q \<in> set xs" "p \<noteq> q"
  shows "2 \<le> length xs"
proof -
  have "card {p, q} \<le> card (set xs)" using assms by (intro card_mono) auto
  also have "\<dots> \<le> length xs" by (rule card_length)
  finally show ?thesis using assms(3) by simp
qed

lemma duplicates_iff:
  "(h, files) \<in> set (duplicates_of (hash_loop rs [])) \<longleftrightarrow>
     files = files_hashed_to h rs \<and> 2 \<le> length files"
  unfolding duplicates_of_def using group_iff[of h files rs] by auto

text \<open>
  Claim C5, as the code has it. Whatever the order in which the hash tasks complete,
  every set the duplicate finder returns has at least two members, and two different
  scanned files that both hash successfully are in a common set exactly when their
  digests are equal. Hence two files of equal content always share a set, and two files
  of different digests never do.
\<close>

theorem duplicate_groups_by_digest:
  assumes perm: "\<forall>xs. mset (completion xs) = mset xs"
  shows "(\<forall>item \<in> set (find_duplicates md5 completion fs all_files). 2 \<le> length (snd item))
   \<and> (p \<in> set all_files \<and> q \<in> set all_files \<and> p \<noteq> q
        \<and> fs p = Some (File c True m) \<and> fs q = Some (File c' True m') \<longrightarrow>
        ((\<exists>item \<in> set (find_duplicates md5 completion fs all_files).
             p \<in> set (snd item) \<and> q \<in> set (snd item)) \<longleftrightarrow> md5 c = md5 c')
        \<and> (c = c' \<longrightarrow> (\<exists>item \<in> set (find_duplicates md5 completion fs all_files).
             p \<in> set (snd item) \<and> q \<in> set (snd item))))"
proof -
  let ?rs = "completion (map (get_file_hash md5 fs) all_files)"
  let ?dups = "find_duplicates md5 completion fs all_files"
  have dups: "?dups = duplicates_of (hash_loop ?rs [])" by (simp add: find_duplicates_def)
  have a: "\<forall>item \<in> set ?dups. 2 \<le> length (snd item)"
    unfolding dups duplicates_of_def by auto
  have b: "(\<exists>item \<in> set ?dups. p \<in> set (snd item) \<and> q \<in> set (snd item)) \<longleftrightarrow> md5 c = md5 c'"
    if h: "p \<in> set all_files" "q \<in> set all_files" "p \<noteq> q"
      "fs p = Some (File c True m)" "fs q = Some (File c' True m')"
  proof
    assume "\<exists>item \<in> set ?dups. p \<in> set (snd item) \<and> q \<in> set (snd item)"
    then obtain k files where m: "(k, files) \<in> set ?dups" "p \<in> set files" "q \<in> set files"
      by force
    from m(1) have f: "files = files_hashed_to k ?rs" unfolding dups duplicates_iff by simp
    from m(2) f hashed_member_iff[OF perm, of p k md5 fs all_files]
    have "snd (get_file_hash md5 fs p) = Some k" by simp
    with h(4) have kp: "k = md5 c" by (simp add: get_file_hash_some)
    from m(3) f hashed_member_iff[OF perm, of q k md5 fs all_files]
    have "snd (get_file_hash md5 fs q) = Some k" by simp
    with h(5) have "k = md5 c'" by (simp add: get_file_hash_some)
    with kp show "md5 c = md5 c'" by simp
  next
    assume e: "md5 c = md5 c'"
    let ?files = "files_hashed_to (md5 c) ?rs"
    have pm: "p \<in> set ?files"
      using hashed_member_iff[OF perm, of p "md5 c" md5 fs all_files] h(1,4)
      by (simp add: get_file_hash_some)
    have qm: "q \<in> set ?files"
      using hashed_member_iff[OF perm, of q "md5 c" md5 fs all_files] h(2,5) e
      by (simp add: get_file_hash_some)
    from two_members_length[OF pm qm h(3)] have "(md5 c, ?files) \<in> set ?dups"
      unfolding dups duplicates_iff by simp
    with pm qm show "\<exists>item \<in> set ?dups. p \<in> set (snd item) \<and> q \<in> set (snd item)" by force
  qed
  from a b show ?thesis by blast
qed

theorem duplicate_groups_by_digest_witness:
  "\<forall>md5. list_all (\<lambda>item. 2 \<le> length (snd item))
            (find_duplicates md5 (\<lambda>xs. xs) triple_store [[''a''], [''b''], [''c'']])
        \<and> (\<exists>item \<in> set (find_duplicates md5 (\<lambda>xs. xs) triple_store [[''a''], [''b''], [''c'']]).
              [''a''] \<in> set (snd item) \<and> [''c''] \<in> set (snd item))"
proof
  fix md5 :: "byte list \<Rightarrow> digest"
  have perm: "\<forall>xs::(path \<times> digest option) list. mset ((\<lambda>xs. xs) xs) = mset xs" by simp
  note th = duplicate_groups_by_digest[OF perm, of md5 triple_store "[[''a''], [''b''], [''c'']]"
      "[''a'']" "[''c'']" "[1, 2, 3]" True "[1, 2, 3]" True]
  have h: "[''a''] \<in> set [[''a''], [''b''], [''c'']] \<and> [''c''] \<in> set [[''a''], [''b''], [''c'']]
      \<and> [''a''] \<noteq> [''c''] \<and> triple_store [''a''] = Some (File [1, 2, 3] True True)
      \<and> triple_store [''c''] = Some (File [1, 2, 3] True True)"
    by (simp add: triple_store_def)
  from th h show "list_all (\<lambda>item. 2 \<le> length (snd item))
            (find_duplicates md5 (\<lambda>xs. xs) triple_store [[''a''], [''b''], [''c'']])
        \<and> (\<exists>item \<in> set (find_duplicates md5 (\<lambda>xs. xs) triple_store [[''a''], [''b''], [''c'']]).
              [''a''] \<in> set (snd item) \<and> [''c''] \<in> set (snd item))"
    unfolding list_all_iff by blast
qed

text \<open>
  Claim C5 as stated fails: the sets are formed from the 128-bit digest alone, with no
  look at sizes or bytes. Whatever function computes the digest, two contents of
  different lengths have the same digest (contents are unbounded in number, digests are
  not), and the finder returns the two files as one duplicate set.
\<close>

theorem different_sizes_can_share_a_group:
  "\<forall>md5. \<exists>a b. length a \<noteq> length b
     \<and> find_duplicates md5 (\<lambda>xs. xs)
         [[''x''] \<mapsto> File a True True, [''y''] \<mapsto> File b True True] [[''x''], [''y'']]
       = [(md5 a, [[''x''], [''y'']])]"
proof
  fix md5 :: "byte list \<Rightarrow> digest"
  from pigeonhole_digest[of "\<lambda>n. md5 (replicate n 0)"] obtain i j where
    ij: "i \<noteq> j" "md5 (replicate i 0) = md5 (replicate j 0)" by blast
  have "find_duplicates md5 (\<lambda>xs. xs)
         [[''x''] \<mapsto> File (replicate i 0) True True, [''y''] \<mapsto> File (replicate j 0) True True]
         [[''x''], [''y'']]
       = [(md5 (replicate i 0), [[''x''], [''y'']])]"
  proof -
    have x: "get_file_hash md5 [[''x''] \<mapsto> File (replicate i 0) True True,
        [''y''] \<mapsto> File (replicate j 0) True True] [''x''] = ([''x''], Some (md5 (replicate i 0)))"
      by (simp add: get_file_hash_def)
    have y: "get_file_hash md5 [[''x''] \<mapsto> File (replicate i 0) True True,
        [''y''] \<mapsto> File (replicate j 0) True True] [''y''] = ([''y''], Some (md5 (replicate i 0)))"
      by (simp add: get_file_hash_def ij(2))
    show ?thesis unfolding find_duplicates_def by (simp add: x y duplicates_of_def)
  qed
  moreover have "length (replicate i (0::byte)) \<noteq> length (replicate j (0::byte))"
    using ij(1) by simp
  ultimately show "\<exists>a b. length a \<noteq> length b
     \<and> find_duplicates md5 (\<lambda>xs. xs)
         [[''x''] \<mapsto> File a True True, [''y''] \<mapsto> File b True True] [[''x''], [''y'']]
       = [(md5 a, [[''x''], [''y'']])]" by blast
qed

subsection \<open>Hash failures\<close>

text \<open>
  Claim C7, as the code has it. \<open>get_file_hash\<close> always returns its pair, and the digest
  is \<^verbatim>\<open>None\<close> exactly when the path holds no regular file that may be read. Such a file
  is in no set of \<open>hash_to_files\<close>, hence in no duplicate set. Nothing else is kept of
  the failure: the loop's result is what it would be without the failed results.
\<close>

theorem failed_hash_is_dropped_silently:
  assumes perm: "\<forall>xs. mset (completion xs) = mset xs"
  shows "fst (get_file_hash md5 fs p) = p
   \<and> (snd (get_file_hash md5 fs p) = None \<longleftrightarrow> \<not> readable_file fs p)
   \<and> (\<not> readable_file fs p \<longrightarrow>
        (\<forall>item \<in> set (hash_loop (completion (map (get_file_hash md5 fs) all_files)) []).
           p \<notin> set (snd item))
        \<and> (\<forall>item \<in> set (find_duplicates md5 completion fs all_files). p \<notin> set (snd item)))
   \<and> hash_loop rs g = hash_loop (filter (\<lambda>x. snd x \<noteq> None) rs) g"
proof -
  let ?rs = "completion (map (get_file_hash md5 fs) all_files)"
  have ex: "p \<notin> set (snd item)" if nr: "\<not> readable_file fs p" and it: "item \<in> set (hash_loop ?rs [])"
    for item
  proof
    assume pin: "p \<in> set (snd item)"
    obtain k files where item: "item = (k, files)" by (cases item)
    with it have "files = files_hashed_to k ?rs" using group_iff[of k files ?rs] by simp
    with pin item hashed_member_iff[OF perm, of p k md5 fs all_files]
    have "snd (get_file_hash md5 fs p) = Some k" by simp
    with nr show False using get_file_hash_none[of md5 fs p] by simp
  qed
  have sub: "set (find_duplicates md5 completion fs all_files) \<subseteq> set (hash_loop ?rs [])"
    by (auto simp: find_duplicates_def duplicates_of_def)
  from ex sub hash_loop_ignores_failures[of rs g] get_file_hash_fst[of md5 fs p]
    get_file_hash_none[of md5 fs p]
  show ?thesis by blast
qed

theorem failed_hash_is_dropped_silently_witness:
  "\<forall>md5. \<not> readable_file unreadable_store [''u'']
     \<and> get_file_hash md5 unreadable_store [''u''] = ([''u''], None)
     \<and> list_all (\<lambda>item. [''u''] \<notin> set (snd item))
          (find_duplicates md5 (\<lambda>xs. xs) unreadable_store [[''a''], [''b''], [''u'']])"
proof
  fix md5 :: "byte list \<Rightarrow> digest"
  have perm: "\<forall>xs::(path \<times> digest option) list. mset ((\<lambda>xs. xs) xs) = mset xs" by simp
  note th = failed_hash_is_dropped_silently[OF perm, of md5 unreadable_store "[''u'']"
      "[[''a''], [''b''], [''u'']]"]
  have nr: "\<not> readable_file unreadable_store [''u'']"
    by (simp add: readable_file_def unreadable_store_def)
  from th nr have g: "get_file_hash md5 unreadable_store [''u''] = ([''u''], None)"
    by (cases "get_file_hash md5 unreadable_store [''u'']") simp
  from th nr have "\<forall>item \<in> set (find_duplicates md5 (\<lambda>xs. xs) unreadable_store
      [[''a''], [''b''], [''u'']]). [''u''] \<notin> set (snd item)" by blast
  with nr g show "\<not> readable_file unreadable_store [''u'']
     \<and> get_file_hash md5 unreadable_store [''u''] = ([''u''], None)
     \<and> list_all (\<lambda>item. [''u''] \<notin> set (snd item))
          (find_duplicates md5 (\<lambda>xs. xs) unreadable_store [[''a''], [''b''], [''u'']])"
    by (simp add: list_all_iff)
qed

text \<open>
  Claim C7 as stated fails: the omission cannot be seen by the caller. A run over a file
  that cannot be read shows exactly what a run over the same file, readable, shows.
\<close>

theorem hash_failure_is_not_observable:
  "\<forall>md5.
     map_sum id fst (find_duplicates_threaded md5 (\<lambda>xs. xs)
                       [[''u''] \<mapsto> File [9] False True] [[''u'']] False)
       = map_sum id fst (find_duplicates_threaded md5 (\<lambda>xs. xs)
                           [[''u''] \<mapsto> File [9] True True] [[''u'']] False)"
  by (simp add: find_duplicates_threaded_def find_duplicates_def get_file_hash_def
        duplicates_of_def)

subsection \<open>Removing duplicates\<close>

text \<open>
  Claim C6 at its failing input: two equal files of three bytes of which the second may
  not be unlinked. The removal loop tries the second file, fails, prints the failure
  line and counts nothing as removed; the store is unchanged. The figure shown as freed
  is nevertheless 3 bytes: it is \<open>duplicate_size\<close>, the estimate that the report loop
  made before the removal, and not the sum of what the loop removed.
\<close>

theorem freed_space_is_the_estimate:
  "\<forall>md5. find_duplicates_threaded md5 (\<lambda>xs. xs) locked_twin_store [[''a''], [''b'']] True
     = Inr (\<lparr>shown_total_files = 2, shown_sets = [(md5 [1, 2, 3], [[''a''], [''b'']])],
             shown_total_duplicates = 1, shown_wasted = 3, shown_removed = Some 0,
             shown_freed = Some 3, shown_failures = [[''b'']]\<rparr>, locked_twin_store)"
  by (simp add: find_duplicates_threaded_def find_duplicates_def get_file_hash_def
        duplicates_of_def count_duplicates_def stat_size_def unlink_def locked_twin_store_def)

end
